theory Spec2Isabelle
  imports Main
begin

section \<open>The BPSW worker: arithmetic primitives\<close>

text \<open>
  The worker (\<^verbatim>\<open>scripts/bpsw/bpsw_worker.py\<close>) computes on Python's unbounded
  integers, modelled as \<^typ>\<open>int\<close>. Python's \<^verbatim>\<open>//\<close> and \<^verbatim>\<open>%\<close> are floor division and
  its remainder, which is what \<open>div\<close> and \<open>mod\<close> are on \<^typ>\<open>int\<close> for a divisor that
  is not zero. A division by zero raises in Python; where the source can reach one, the
  model returns an error value.
\<close>

definition SMALL_PRIMES :: "int list" where
  "SMALL_PRIMES = [2, 3, 5, 7, 11, 13, 17, 19, 23, 29, 31, 37]"

definition DEFAULT_M_PRIMES :: "int list" where
  "DEFAULT_M_PRIMES = [13, 17, 29, 37, 41]"

definition DEFAULT_N_PRIMES :: "int list" where
  "DEFAULT_N_PRIMES = [3, 7, 11, 19, 23]"

definition DEFAULT_LAMBDA_FACTORS :: "(int \<times> int) list" where
  "DEFAULT_LAMBDA_FACTORS = [(2, 10), (3, 6), (5, 4), (7, 3), (11, 2), (13, 2), (17, 1)]"

subsection \<open>Builtins of the language\<close>

text \<open>
  \<^verbatim>\<open>math.isqrt\<close> is a builtin: the floor of the square root of a non-negative integer.
  It is modelled by a recursion on the base-4 digits, and \<open>isqrt_floor\<close> below shows that
  the recursion computes exactly that floor.
\<close>

function isqrt :: "int \<Rightarrow> int" where
  "isqrt n =
     (if n < 1 then 0
      else if n < 4 then 1
      else (let r = 2 * isqrt (n div 4)
            in if (r + 1) * (r + 1) \<le> n then r + 1 else r))"
  by pat_completeness auto
termination
  by (relation "measure nat") auto

declare isqrt.simps [simp del]

text \<open>
  The three-argument \<^verbatim>\<open>pow(a, e, m)\<close> is a builtin as well: \<open>a ^ e mod m\<close> for
  \<open>e \<ge> 0\<close>. It is modelled by square-and-multiply on the bits of the exponent, and
  \<open>pow_mod_eq\<close> below shows that this is the modular power. The source calls it in
  \<^verbatim>\<open>miller_rabin\<close> only, with an exponent \<open>e \<ge> 1\<close> and an odd modulus \<open>m \<ge> 3\<close>;
  a negative exponent or a zero modulus, where the builtin behaves otherwise, does not
  occur.
\<close>

function pow_mod :: "int \<Rightarrow> int \<Rightarrow> int \<Rightarrow> int" where
  "pow_mod a e m =
     (if e \<le> 0 then 1 mod m
      else (let h = pow_mod a (e div 2) m;
                sq = (h * h) mod m
            in if e mod 2 = 1 then (sq * a) mod m else sq))"
  by pat_completeness auto
termination
  by (relation "measure (\<lambda>(a, e, m). nat e)") auto

declare pow_mod.simps [simp del]

text \<open>\<^verbatim>\<open>math.prod\<close> of a list of integers.\<close>

definition prod_py :: "int list \<Rightarrow> int" where
  "prod_py xs = foldl (\<lambda>acc x. acc * x) 1 xs"

subsection \<open>\<^verbatim>\<open>is_square\<close> and \<^verbatim>\<open>jacobi\<close>\<close>

definition is_square :: "int \<Rightarrow> bool" where
  "is_square n = (if n < 0 then False else (let root = isqrt n in root * root = n))"

text \<open>
  The inner loop of \<^verbatim>\<open>jacobi\<close>: \<^verbatim>\<open>while a % 2 == 0: a //= 2; if n % 8 in (3, 5): result = -result\<close>.
  The source enters it only under \<^verbatim>\<open>while a != 0\<close>, and halving a non-zero even number
  leaves it non-zero, so the loop is never run at \<open>a = 0\<close> (where it would not stop);
  the guard \<open>a \<noteq> 0\<close> makes the recursion total without changing any reachable run.
\<close>

function jacobi_strip :: "int \<Rightarrow> int \<Rightarrow> int \<Rightarrow> int \<times> int" where
  "jacobi_strip a n result =
     (if a \<noteq> 0 \<and> a mod 2 = 0
      then jacobi_strip (a div 2) n (if n mod 8 = 3 \<or> n mod 8 = 5 then - result else result)
      else (a, result))"
  by pat_completeness auto
termination
  by (relation "measure (\<lambda>(a, n, result). nat \<bar>a\<bar>)") auto

declare jacobi_strip.simps [simp del]

lemma jacobi_strip_stop: "a = 0 \<or> a mod 2 \<noteq> 0 \<Longrightarrow> jacobi_strip a n r = (a, r)"
  by (subst jacobi_strip.simps) auto

lemma jacobi_strip_step:
  "a \<noteq> 0 \<Longrightarrow> a mod 2 = 0 \<Longrightarrow>
   jacobi_strip a n r = jacobi_strip (a div 2) n (if n mod 8 = 3 \<or> n mod 8 = 5 then - r else r)"
  by (subst jacobi_strip.simps) simp

lemma jacobi_strip_fst_nonzero: "a \<noteq> 0 \<Longrightarrow> fst (jacobi_strip a n r) \<noteq> 0"
proof (induction a n r rule: jacobi_strip.induct)
  case (1 a n result)
  show ?case
  proof (cases "a mod 2 = 0")
    case True
    with "1.prems" have "a div 2 \<noteq> 0" by presburger
    with "1.IH" "1.prems" True show ?thesis
      by (simp add: jacobi_strip_step)
  next
    case False
    with "1.prems" show ?thesis
      by (simp add: jacobi_strip_stop)
  qed
qed

lemma jacobi_strip_fst_le: "\<bar>fst (jacobi_strip a n r)\<bar> \<le> \<bar>a\<bar>"
proof (induction a n r rule: jacobi_strip.induct)
  case (1 a n result)
  show ?case
  proof (cases "a \<noteq> 0 \<and> a mod 2 = 0")
    case True
    then have "\<bar>a div 2\<bar> \<le> \<bar>a\<bar>" by presburger
    moreover have "\<bar>fst (jacobi_strip (a div 2) n (if n mod 8 = 3 \<or> n mod 8 = 5 then - result else result))\<bar> \<le> \<bar>a div 2\<bar>"
      using "1.IH" True by simp
    ultimately show ?thesis using True
      by (simp add: jacobi_strip_step)
  next
    case False
    then show ?thesis
      by (simp add: jacobi_strip_stop)
  qed
qed

text \<open>
  The outer loop \<^verbatim>\<open>while a != 0\<close>: strip the factors of two, swap \<open>a\<close> and \<open>n\<close>, flip
  the sign when both are 3 modulo 4, reduce. After the swap the new \<open>n\<close> is the stripped
  \<open>a\<close>, which is not zero, so \<^verbatim>\<open>a %= n\<close> never divides by zero.
\<close>

function jacobi_loop :: "int \<Rightarrow> int \<Rightarrow> int \<Rightarrow> int" where
  "jacobi_loop a n result =
     (if a = 0 then (if n = 1 then result else 0)
      else (let (a1, r1) = jacobi_strip a n result;
                a2 = n;
                n2 = a1;
                r2 = (if a2 mod 4 = 3 \<and> n2 mod 4 = 3 then - r1 else r1)
            in jacobi_loop (a2 mod n2) n2 r2))"
  by pat_completeness auto
termination
proof (relation "measure (\<lambda>(a, n, result). nat \<bar>a\<bar>)", goal_cases)
  case 1
  show ?case by simp
next
  case (2 a n result x a1 r1 a2 n2 r2)
  from 2(2,3) have "jacobi_strip a n result = (a1, r1)"
    by simp
  then have a1: "a1 = fst (jacobi_strip a n result)"
    by simp
  have nz: "a1 \<noteq> 0"
    unfolding a1 using 2(1) by (rule jacobi_strip_fst_nonzero)
  have le: "\<bar>a1\<bar> \<le> \<bar>a\<bar>" unfolding a1 by (rule jacobi_strip_fst_le)
  have lt: "\<bar>n mod a1\<bar> < \<bar>a1\<bar>"
    using nz by (rule abs_mod_less)
  show ?case
    using le lt 2(4,5) by simp
qed

declare jacobi_loop.simps [simp del]

definition jacobi :: "int \<Rightarrow> int \<Rightarrow> int" where
  "jacobi a n = (if n \<le> 0 \<or> n mod 2 = 0 then 0 else jacobi_loop (a mod n) n 1)"

section \<open>Primality tests\<close>

text \<open>
  \<^verbatim>\<open>while d % 2 == 0: d //= 2; s += 1\<close>, the loop that writes \<open>d \<cdot> 2 ^ s\<close> with \<open>d\<close> odd.
  Both callers start it at a positive number (\<open>n - 1\<close> and \<open>n + 1\<close> for an odd
  \<open>n \<ge> 3\<close>); at 0, which no caller passes, the source would not stop, and the guard
  \<open>d \<noteq> 0\<close> makes the recursion total.
\<close>

function split_twos :: "int \<Rightarrow> nat \<Rightarrow> int \<times> nat" where
  "split_twos d s = (if d \<noteq> 0 \<and> d mod 2 = 0 then split_twos (d div 2) (s + 1) else (d, s))"
  by pat_completeness auto
termination
  by (relation "measure (\<lambda>(d, s). nat \<bar>d\<bar>)") auto

declare split_twos.simps [simp del]

subsection \<open>\<^verbatim>\<open>miller_rabin\<close>\<close>

text \<open>
  The inner \<^verbatim>\<open>for _ in range(s - 1)\<close> of \<^verbatim>\<open>miller_rabin\<close>; the result is the flag
  \<^verbatim>\<open>composite\<close> after the loop.
\<close>

fun mr_squarings :: "int \<Rightarrow> int \<Rightarrow> nat \<Rightarrow> bool" where
  "mr_squarings n x 0 = True"
| "mr_squarings n x (Suc k) =
     (let x1 = pow_mod x 2 n in if x1 = n - 1 then False else mr_squarings n x1 k)"

text \<open>The loop \<^verbatim>\<open>for a in bases\<close>.\<close>

fun mr_bases :: "int \<Rightarrow> int \<Rightarrow> nat \<Rightarrow> int list \<Rightarrow> bool" where
  "mr_bases n d s [] = True"
| "mr_bases n d s (a # bases) =
     (if a mod n = 0 then mr_bases n d s bases
      else (let x = pow_mod a d n
            in if x = 1 \<or> x = n - 1 then mr_bases n d s bases
               else if mr_squarings n x (s - 1) then False
               else mr_bases n d s bases))"

definition miller_rabin :: "int \<Rightarrow> int list \<Rightarrow> bool" where
  "miller_rabin n bases =
     (if n < 2 then False
      else if n mod 2 = 0 then n = 2
      else (case split_twos (n - 1) 0 of (d, s) \<Rightarrow> mr_bases n d s bases))"

subsection \<open>\<^verbatim>\<open>lucas_selfridge\<close>\<close>

text \<open>
  The selection of \<open>D\<close>: \<^verbatim>\<open>while True: j = jacobi(d, n); if j == -1: break; d += 2;
  sign = -sign; d = sign * d\<close>. The loop has no bound, so the model is a partial function:
  \<open>None\<close> is a run that never leaves the loop.
\<close>

partial_function (option) selfridge_d :: "int \<Rightarrow> int \<Rightarrow> int \<Rightarrow> int option" where
  "selfridge_d n d sign =
     (if jacobi d n = - 1 then Some d
      else selfridge_d n (- sign * (d + 2)) (- sign))"

declare selfridge_d.simps [code]

text \<open>
  One pass of that loop body after a failed test, on the pair \<open>(d, sign)\<close>, and the
  candidates the loop examines one after the other.
\<close>

definition selfridge_next :: "int \<times> int \<Rightarrow> int \<times> int" where
  "selfridge_next ds = (case ds of (d, sign) \<Rightarrow> (- sign * (d + 2), - sign))"

definition selfridge_candidate :: "nat \<Rightarrow> int" where
  "selfridge_candidate k = fst ((selfridge_next ^^ k) (5, 1))"

text \<open>The ladder \<^verbatim>\<open>while d_bit > 1\<close>; the result is \<open>(u, v, q_k)\<close> after the loop.\<close>

function lucas_ladder :: "int \<Rightarrow> int \<Rightarrow> int \<Rightarrow> int \<Rightarrow> int \<Rightarrow> int \<times> int \<times> int" where
  "lucas_ladder n u v q_k d_bit =
     (if d_bit > 1
      then lucas_ladder n
             (if d_bit mod 2 = 1 then (u * v) mod n else u)
             ((v * v - 2 * q_k) mod n)
             ((q_k * q_k) mod n)
             (d_bit div 2)
      else (u, v, q_k))"
  by pat_completeness auto
termination
  by (relation "measure (\<lambda>(n, u, v, q_k, d_bit). nat d_bit)") auto

declare lucas_ladder.simps [simp del]

text \<open>
  The final \<^verbatim>\<open>for _ in range(s - 1)\<close>, which returns true as soon as \<open>v\<close> is 0, and
  the function itself: \<open>None\<close> when the selection of \<open>D\<close> never ends, otherwise the
  truth value returned.
\<close>

fun lucas_doublings :: "int \<Rightarrow> int \<Rightarrow> int \<Rightarrow> nat \<Rightarrow> bool" where
  "lucas_doublings n v q_k 0 = False"
| "lucas_doublings n v q_k (Suc k) =
     (let v1 = (v * v - 2 * q_k) mod n;
          q1 = (q_k * q_k) mod n
      in if v1 = 0 then True else lucas_doublings n v1 q1 k)"

definition lucas_selfridge :: "int \<Rightarrow> bool option" where
  "lucas_selfridge n =
     (if n < 2 \<or> n mod 2 = 0 then Some (n = 2)
      else if is_square n then Some False
      else (case selfridge_d n 5 1 of
              None \<Rightarrow> None
            | Some d \<Rightarrow>
                (let p = 1;
                     q = (1 - d) div 4
                 in case split_twos (n + 1) 0 of (n_plus_one, s) \<Rightarrow>
                      (case lucas_ladder n 1 p q n_plus_one of (u, v, q_k) \<Rightarrow>
                         Some (if u = 0 \<or> v = 0 then True
                               else lucas_doublings n v q_k (s - 1))))))"

subsection \<open>\<^verbatim>\<open>is_bpsw_probable_prime\<close> and \<^verbatim>\<open>is_probable_prime\<close>\<close>

text \<open>
  The loop \<^verbatim>\<open>for p in SMALL_PRIMES\<close>: \<open>Some b\<close> when it returns \<open>b\<close>, \<open>None\<close> when it
  runs to its end.
\<close>

fun trial_division :: "int \<Rightarrow> int list \<Rightarrow> bool option" where
  "trial_division n [] = None"
| "trial_division n (p # ps) =
     (if n = p then Some True
      else if n mod p = 0 then Some False
      else trial_division n ps)"

text \<open>
  \<^verbatim>\<open>gmpy2\<close> is an optional library: \<open>None\<close> when its import failed (the module
  variable is \<^verbatim>\<open>None\<close>), otherwise its \<^verbatim>\<open>is_bpsw_prp\<close>, which returns a truth value
  or raises (\<open>None\<close>); an exception there is caught and gives false. The result of
  the test is \<open>None\<close> when the call of \<^verbatim>\<open>lucas_selfridge\<close> does not return; the
  \<^verbatim>\<open>and\<close> of the last line calls it only when \<^verbatim>\<open>miller_rabin\<close> is true.
\<close>

type_synonym gmpy2 = "(int \<Rightarrow> bool option) option"

definition is_bpsw_probable_prime :: "gmpy2 \<Rightarrow> int \<Rightarrow> bool option" where
  "is_bpsw_probable_prime gmpy2 n =
     (if n < 2 then Some False
      else (case trial_division n SMALL_PRIMES of
              Some b \<Rightarrow> Some b
            | None \<Rightarrow>
                (case gmpy2 of
                   Some is_bpsw_prp \<Rightarrow>
                     (case is_bpsw_prp n of Some b \<Rightarrow> Some b | None \<Rightarrow> Some False)
                 | None \<Rightarrow>
                     (if miller_rabin n [2] then lucas_selfridge n else Some False))))"

definition is_probable_prime :: "int \<Rightarrow> bool" where
  "is_probable_prime n =
     (if n < 2 then False
      else (case trial_division n SMALL_PRIMES of
              Some b \<Rightarrow> b
            | None \<Rightarrow> miller_rabin n [2, 3, 5, 7, 11, 13, 17]))"

section \<open>Extended gcd and the Chinese remainder theorem\<close>

text \<open>An exception of the source, as a value.\<close>

datatype error = ValueError string | ZeroDivisionError | SystemExit string | RecursionError

text \<open>\<^verbatim>\<open>digits(n) = len(str(abs(n)))\<close>: the number of decimal digits.\<close>

function digits :: "int \<Rightarrow> nat" where
  "digits n = (if \<bar>n\<bar> < 10 then 1 else Suc (digits (\<bar>n\<bar> div 10)))"
  by pat_completeness auto
termination
  by (relation "measure (\<lambda>n. nat \<bar>n\<bar>)") auto

declare digits.simps [simp del]

text \<open>
  \<^verbatim>\<open>egcd\<close> is the one recursive function of the worker, and it opens one frame of the
  interpreter for each step of Euclid's algorithm. The interpreter bounds the depth of
  the stack (\<^verbatim>\<open>sys.getrecursionlimit()\<close>, 1000 unless it is changed, which the worker
  does not do) and raises \<^verbatim>\<open>RecursionError\<close> at the call that would exceed it. The first
  argument \<open>frames\<close> is the number of frames that the call may still open: the limit less
  the depth of the stack at the call.
\<close>

fun egcd :: "nat \<Rightarrow> int \<Rightarrow> int \<Rightarrow> error + (int \<times> int \<times> int)" where
  "egcd 0 a b = Inl RecursionError"
| "egcd (Suc frames) a b =
     (if b = 0 then Inr (a, 1, 0)
      else (case egcd frames b (a mod b) of
              Inl e \<Rightarrow> Inl e
            | Inr (g, x1, y1) \<Rightarrow> Inr (g, y1, x1 - (a div b) * y1)))"

text \<open>
  The number of frames that \<^verbatim>\<open>egcd(a, b)\<close> needs: one for the call and one for each
  call below it.
\<close>

function euclid_frames :: "int \<Rightarrow> int \<Rightarrow> nat" where
  "euclid_frames a b = (if b = 0 then 1 else Suc (euclid_frames b (a mod b)))"
  by pat_completeness auto
termination
  by (relation "measure (\<lambda>(a, b). nat \<bar>b\<bar>)") (auto simp: abs_mod_less)

declare euclid_frames.simps [simp del]

text \<open>
  \<^verbatim>\<open>crt_pair\<close>. The source divides three times: by \<open>g\<close>, by \<open>m2 // g\<close> and by \<open>lcm\<close>;
  each of them raises \<^verbatim>\<open>ZeroDivisionError\<close> at a zero divisor, in the order of the
  statements. An exception of \<^verbatim>\<open>egcd\<close> passes through; \<open>frames\<close> is the number of
  frames left for that call, here and in the callers of \<^verbatim>\<open>crt_pair\<close> below.
\<close>

definition crt_pair ::
  "nat \<Rightarrow> int \<Rightarrow> int \<Rightarrow> int \<Rightarrow> int \<Rightarrow> error + (int \<times> int)" where
  "crt_pair frames a1 m1 a2 m2 =
     (case egcd frames m1 m2 of
        Inl e \<Rightarrow> Inl e
      | Inr (g, x, y) \<Rightarrow>
          if g = 0 then Inl ZeroDivisionError
          else if (a2 - a1) mod g \<noteq> 0 then Inl (ValueError ''incompatible congruences'')
          else (let lcm = m1 div g * m2
                in if m2 div g = 0 then Inl ZeroDivisionError
                   else (let t = ((a2 - a1) div g * x) mod (m2 div g)
                         in if lcm = 0 then Inl ZeroDivisionError
                            else Inr ((a1 + m1 * t) mod lcm, lcm))))"

text \<open>The loop \<^verbatim>\<open>for a, m in constraints\<close> of \<^verbatim>\<open>build_mod_constraint\<close>.\<close>

fun combine_constraints ::
  "nat \<Rightarrow> (int \<times> int) list \<Rightarrow> int \<Rightarrow> int \<Rightarrow> error + (int \<times> int)" where
  "combine_constraints frames [] residue modulus = Inr (residue, modulus)"
| "combine_constraints frames ((a, m) # cs) residue modulus =
     (if m = 1 then combine_constraints frames cs residue modulus
      else if m = 0 then Inl ZeroDivisionError
      else (case crt_pair frames residue modulus (a mod m) m of
              Inl e \<Rightarrow> Inl e
            | Inr (residue1, modulus1) \<Rightarrow> combine_constraints frames cs residue1 modulus1))"

text \<open>
  \<^verbatim>\<open>build_mod_constraint\<close>. The list of constraints is built before the loop, and its
  second and fourth entries reduce modulo 5 and modulo the product of \<open>n_primes\<close>: a
  product that is zero raises there.
\<close>

definition build_mod_constraint ::
  "nat \<Rightarrow> int list \<Rightarrow> int list \<Rightarrow> int \<Rightarrow> error + (int \<times> int)" where
  "build_mod_constraint frames m_primes n_primes mod5_residue =
     (let pm = (if m_primes \<noteq> [] then prod_py m_primes else 1);
          pn = (if n_primes \<noteq> [] then prod_py n_primes else 1)
      in if pn = 0 then Inl ZeroDivisionError
         else combine_constraints frames
                [(3, 8), (mod5_residue mod 5, 5), (1, pm), ((- 1) mod pn, pn)] 0 1)"

section \<open>Candidate generators\<close>

text \<open>
  \<^verbatim>\<open>random.Random\<close> is the language's seeded generator; its algorithm is not part of
  the worker. It is a parameter of the model: a type \<open>'r\<close> of generator states with the
  three operations the worker uses, each returning the value drawn and the next state.
\<close>

record 'r random =
  Random :: "int \<Rightarrow> 'r"
  randrange :: "'r \<Rightarrow> int \<Rightarrow> int \<Rightarrow> int \<Rightarrow> int \<times> 'r"
  randint :: "'r \<Rightarrow> int \<Rightarrow> int \<Rightarrow> int \<times> 'r"

definition random_odd_in_range ::
  "('r, 'x) random_scheme \<Rightarrow> 'r \<Rightarrow> int \<Rightarrow> int \<Rightarrow> error + (int \<times> 'r)" where
  "random_odd_in_range R rng low high =
     (let low1 = (if low mod 2 = 0 then low + 1 else low);
          high1 = (if high mod 2 = 0 then high - 1 else high)
      in if low1 > high1 then Inl (ValueError ''invalid range'')
         else Inr (randrange R rng low1 (high1 + 1) 2))"

text \<open>
  The bounds \<^verbatim>\<open>low = 10 ** (digits_count - 1)\<close> and \<^verbatim>\<open>high = 10 ** digits_count - 1\<close>.
  For \<open>digits_count \<le> 0\<close> the powers are floats with \<open>low > high\<close> after the
  rounding to odd, and the first call of \<^verbatim>\<open>random_odd_in_range\<close> raises
  \<^verbatim>\<open>ValueError("invalid range")\<close>; the model returns that exception at the place of
  the call, and the integer bounds otherwise. (For a count so far below zero that the
  exponent has no float, the power itself raises; the model does not tell the two
  exceptions apart.)
\<close>

definition digit_bounds :: "int \<Rightarrow> error + (int \<times> int)" where
  "digit_bounds digits_count =
     (if digits_count \<le> 0 then Inl (ValueError ''invalid range'')
      else Inr (10 ^ nat (digits_count - 1), 10 ^ nat digits_count - 1))"

text \<open>The loop \<^verbatim>\<open>while candidate <= high and steps < max_steps\<close> of \<^verbatim>\<open>find_prime_in_progression\<close>.\<close>

function progression_loop ::
  "(int \<Rightarrow> bool) option \<Rightarrow> int \<Rightarrow> int \<Rightarrow> int \<Rightarrow> int \<Rightarrow> int \<Rightarrow> int option" where
  "progression_loop predicate high modulus max_steps candidate steps =
     (if candidate \<le> high \<and> steps < max_steps
      then (if candidate mod 2 = 1 \<and> is_probable_prime candidate
               \<and> (case predicate of None \<Rightarrow> True | Some pr \<Rightarrow> pr candidate)
            then Some candidate
            else progression_loop predicate high modulus max_steps (candidate + modulus) (steps + 1))
      else None)"
  by pat_completeness auto
termination
  by (relation "measure (\<lambda>(predicate, high, modulus, max_steps, candidate, steps). nat (max_steps - steps))")
    auto

declare progression_loop.simps [simp del]

definition find_prime_in_progression ::
  "('r, 'x) random_scheme \<Rightarrow> 'r \<Rightarrow> int \<Rightarrow> int \<Rightarrow> int \<Rightarrow> int \<Rightarrow> (int \<Rightarrow> bool) option
     \<Rightarrow> error + (int option \<times> 'r)" where
  "find_prime_in_progression R rng digits_count residue modulus max_steps predicate =
     (if modulus \<le> 0 then Inr (None, rng)
      else (case digit_bounds digits_count of
              Inl e \<Rightarrow> Inl e
            | Inr (low, high) \<Rightarrow>
                (case random_odd_in_range R rng low high of
                   Inl e \<Rightarrow> Inl e
                 | Inr (start, rng1) \<Rightarrow>
                     (let delta = (residue - start) mod modulus;
                          candidate = start + delta;
                          candidate1 = (if candidate < low then candidate + modulus else candidate)
                      in Inr (progression_loop predicate high modulus max_steps candidate1 0, rng1)))))"

text \<open>The loop \<^verbatim>\<open>while steps < max_steps\<close> of \<^verbatim>\<open>find_prime_with_filters\<close>.\<close>

function filters_loop ::
  "('r, 'x) random_scheme \<Rightarrow> (int \<Rightarrow> bool) \<Rightarrow> int \<Rightarrow> int \<Rightarrow> int \<Rightarrow> int \<Rightarrow> 'r
     \<Rightarrow> error + (int option \<times> 'r)" where
  "filters_loop R predicate low high max_steps steps rng =
     (if steps < max_steps
      then (case random_odd_in_range R rng low high of
              Inl e \<Rightarrow> Inl e
            | Inr (candidate, rng1) \<Rightarrow>
                if predicate candidate \<and> is_probable_prime candidate
                then Inr (Some candidate, rng1)
                else filters_loop R predicate low high max_steps (steps + 1) rng1)
      else Inr (None, rng))"
  by pat_completeness auto
termination
  by (relation "measure (\<lambda>(R, predicate, low, high, max_steps, steps, rng). nat (max_steps - steps))")
    auto

declare filters_loop.simps [simp del]

definition find_prime_with_filters ::
  "('r, 'x) random_scheme \<Rightarrow> 'r \<Rightarrow> int \<Rightarrow> int \<Rightarrow> (int \<Rightarrow> bool) \<Rightarrow> error + (int option \<times> 'r)" where
  "find_prime_with_filters R rng digits_count max_steps predicate =
     (if 0 < max_steps
      then (case digit_bounds digits_count of
              Inl e \<Rightarrow> Inl e
            | Inr (low, high) \<Rightarrow> filters_loop R predicate low high max_steps 0 rng)
      else Inr (None, rng))"

text \<open>
  The \<^verbatim>\<open>meta\<close> dictionary of a hit, one constructor for each family. The decimal strings
  of the source (\<^verbatim>\<open>str(p)\<close>) are kept as the integers they print.
\<close>

datatype task_type =
  Main_odds | Large_numbers | Chernick | Pomerance_lite | Pomerance_modular | Lambda_plus_one

datatype meta =
  Meta_range task_type
| Meta_chernick int "int list"
| Meta_pomerance_lite int int "int list"
| Meta_pomerance_modular int int int int int "int list" "int list" "int list"
| Meta_lambda_plus_one "(int \<times> int) list" int "int list"

definition generate_chernick :: "int \<Rightarrow> bool \<Rightarrow> (int \<times> meta) option" where
  "generate_chernick k require_prime_factors =
     (let f1 = 6 * k + 1;
          f2 = 12 * k + 1;
          f3 = 18 * k + 1
      in if require_prime_factors
            \<and> \<not> (is_probable_prime f1 \<and> is_probable_prime f2 \<and> is_probable_prime f3)
         then None
         else Some (f1 * f2 * f3, Meta_chernick k [f1, f2, f3]))"

text \<open>
  The condition of the accumulation loop that the three seeded generators share:
  \<^verbatim>\<open>digits(math.prod(factors) if factors else 1) < target_digits or len(factors) % 2 == 0\<close>.
\<close>

definition more_factors :: "int \<Rightarrow> int list \<Rightarrow> bool" where
  "more_factors target_digits factors =
     (int (digits (if factors \<noteq> [] then prod_py factors else 1)) < target_digits
      \<or> length factors mod 2 = 0)"

definition lite_predicate :: "int \<Rightarrow> bool" where
  "lite_predicate p = (p mod 8 = 3 \<and> jacobi 5 p = - 1)"

text \<open>The loop of \<^verbatim>\<open>generate_pomerance_lite\<close>; the result is the list \<^verbatim>\<open>factors\<close> after it.\<close>

function lite_loop ::
  "('r, 'x) random_scheme \<Rightarrow> int \<Rightarrow> int \<Rightarrow> int \<Rightarrow> int list \<Rightarrow> 'r \<Rightarrow> error + int list option" where
  "lite_loop R target_digits prime_digits max_steps factors rng =
     (if more_factors target_digits factors
      then (case find_prime_with_filters R rng prime_digits max_steps lite_predicate of
              Inl e \<Rightarrow> Inl e
            | Inr (None, rng1) \<Rightarrow> Inr None
            | Inr (Some prime, rng1) \<Rightarrow>
                if length (factors @ [prime]) > 9 then Inr (Some (factors @ [prime]))
                else lite_loop R target_digits prime_digits max_steps (factors @ [prime]) rng1)
      else Inr (Some factors))"
  by pat_completeness auto
termination
  by (relation "measure (\<lambda>(R, target_digits, prime_digits, max_steps, factors, rng). 10 - length factors)")
    auto

declare lite_loop.simps [simp del]

definition generate_pomerance_lite ::
  "('r, 'x) random_scheme \<Rightarrow> int \<Rightarrow> int \<Rightarrow> int \<Rightarrow> int \<Rightarrow> error + (int \<times> meta) option" where
  "generate_pomerance_lite R seed target_digits prime_digits max_steps =
     (case lite_loop R target_digits prime_digits max_steps [] (Random R seed) of
        Inl e \<Rightarrow> Inl e
      | Inr None \<Rightarrow> Inr None
      | Inr (Some factors) \<Rightarrow>
          Inr (Some (prod_py factors, Meta_pomerance_lite prime_digits target_digits factors)))"

text \<open>The loop of \<^verbatim>\<open>generate_pomerance_modular\<close>.\<close>

function modular_loop ::
  "('r, 'x) random_scheme \<Rightarrow> int \<Rightarrow> int \<Rightarrow> int \<Rightarrow> int \<Rightarrow> int \<Rightarrow> int list \<Rightarrow> 'r
     \<Rightarrow> error + int list option" where
  "modular_loop R target_digits prime_digits max_steps residue modulus factors rng =
     (if more_factors target_digits factors
      then (case find_prime_in_progression R rng prime_digits residue modulus max_steps None of
              Inl e \<Rightarrow> Inl e
            | Inr (None, rng1) \<Rightarrow> Inr None
            | Inr (Some prime, rng1) \<Rightarrow>
                if length (factors @ [prime]) > 9 then Inr (Some (factors @ [prime]))
                else modular_loop R target_digits prime_digits max_steps residue modulus
                       (factors @ [prime]) rng1)
      else Inr (Some factors))"
  by pat_completeness auto
termination
  by (relation "measure (\<lambda>(R, target_digits, prime_digits, max_steps, residue, modulus, factors, rng).
                   10 - length factors)")
    auto

declare modular_loop.simps [simp del]

definition generate_pomerance_modular ::
  "('r, 'x) random_scheme \<Rightarrow> nat \<Rightarrow> int \<Rightarrow> int \<Rightarrow> int \<Rightarrow> int \<Rightarrow> int list \<Rightarrow> int list \<Rightarrow> int
     \<Rightarrow> error + (int \<times> meta) option" where
  "generate_pomerance_modular R frames seed target_digits prime_digits max_steps m_primes n_primes
     mod5_residue =
     (case build_mod_constraint frames m_primes n_primes mod5_residue of
        Inl e \<Rightarrow> Inl e
      | Inr (residue, modulus) \<Rightarrow>
          (case modular_loop R target_digits prime_digits max_steps residue modulus []
                  (Random R seed) of
             Inl e \<Rightarrow> Inl e
           | Inr None \<Rightarrow> Inr None
           | Inr (Some factors) \<Rightarrow>
               Inr (Some (prod_py factors,
                          Meta_pomerance_modular prime_digits target_digits modulus residue
                            mod5_residue m_primes n_primes factors))))"

text \<open>
  \<^verbatim>\<open>generate_lambda_plus_one\<close>. The innermost loop draws one exponent for each
  \<open>(base, max_exp)\<close> and multiplies \<open>d\<close> by \<open>base ** exp\<close> when the exponent is not 0;
  \<^verbatim>\<open>rng.randint(0, max_exp)\<close> raises on the empty range \<open>max_exp < 0\<close>. The exponents
  drawn lie in \<open>[0, max_exp]\<close>, so the power is one of integers.
\<close>

fun draw_d :: "('r, 'x) random_scheme \<Rightarrow> (int \<times> int) list \<Rightarrow> int \<Rightarrow> 'r \<Rightarrow> error + (int \<times> 'r)" where
  "draw_d R [] d rng = Inr (d, rng)"
| "draw_d R ((base, max_exp) # fs) d rng =
     (if max_exp < 0 then Inl (ValueError ''empty range for randrange()'')
      else (case randint R rng 0 max_exp of (exp, rng1) \<Rightarrow>
              draw_d R fs (if exp \<noteq> 0 then d * base ^ nat exp else d) rng1))"

text \<open>
  The loop \<^verbatim>\<open>while attempts < max_steps\<close>: \<open>Some p\<close> when it leaves by \<^verbatim>\<open>break\<close> with
  the factor \<open>p\<close> appended, \<open>None\<close> when it runs out of attempts.
\<close>

function attempts_loop ::
  "('r, 'x) random_scheme \<Rightarrow> (int \<times> int) list \<Rightarrow> bool \<Rightarrow> int \<Rightarrow> int \<Rightarrow> 'r
     \<Rightarrow> error + (int option \<times> 'r)" where
  "attempts_loop R lambda_factors require_prime max_steps attempts rng =
     (if attempts < max_steps
      then (case draw_d R lambda_factors 1 rng of
              Inl e \<Rightarrow> Inl e
            | Inr (d, rng1) \<Rightarrow>
                (let p = d + 1
                 in if p > 2 \<and> (\<not> require_prime \<or> is_probable_prime p)
                    then Inr (Some p, rng1)
                    else attempts_loop R lambda_factors require_prime max_steps (attempts + 1) rng1))
      else Inr (None, rng))"
  by pat_completeness auto
termination
  by (relation "measure (\<lambda>(R, lambda_factors, require_prime, max_steps, attempts, rng).
                   nat (max_steps - attempts))")
    auto

declare attempts_loop.simps [simp del]

function lambda_loop ::
  "('r, 'x) random_scheme \<Rightarrow> int \<Rightarrow> (int \<times> int) list \<Rightarrow> bool \<Rightarrow> int \<Rightarrow> int list \<Rightarrow> 'r
     \<Rightarrow> error + int list option" where
  "lambda_loop R target_digits lambda_factors require_prime max_steps factors rng =
     (if more_factors target_digits factors
      then (case attempts_loop R lambda_factors require_prime max_steps 0 rng of
              Inl e \<Rightarrow> Inl e
            | Inr (None, rng1) \<Rightarrow> Inr None
            | Inr (Some p, rng1) \<Rightarrow>
                if length (factors @ [p]) > 9 then Inr (Some (factors @ [p]))
                else lambda_loop R target_digits lambda_factors require_prime max_steps
                       (factors @ [p]) rng1)
      else Inr (Some factors))"
  by pat_completeness auto
termination
  by (relation "measure (\<lambda>(R, target_digits, lambda_factors, require_prime, max_steps, factors, rng).
                   10 - length factors)")
    auto

declare lambda_loop.simps [simp del]

definition generate_lambda_plus_one ::
  "('r, 'x) random_scheme \<Rightarrow> int \<Rightarrow> int \<Rightarrow> (int \<times> int) list \<Rightarrow> bool \<Rightarrow> int
     \<Rightarrow> error + (int \<times> meta) option" where
  "generate_lambda_plus_one R seed target_digits lambda_factors require_prime max_steps =
     (case lambda_loop R target_digits lambda_factors require_prime max_steps [] (Random R seed) of
        Inl e \<Rightarrow> Inl e
      | Inr None \<Rightarrow> Inr None
      | Inr (Some factors) \<Rightarrow>
          Inr (Some (prod_py factors, Meta_lambda_plus_one lambda_factors target_digits factors)))"

section \<open>The task executor\<close>

text \<open>
  The namespace of arguments after parsing. The lists \<open>m_primes\<close>, \<open>n_primes\<close> and
  \<open>lambda_factors\<close> are the values that \<^verbatim>\<open>parse_prime_list\<close> and
  \<^verbatim>\<open>parse_lambda_factors\<close> return for the strings given (the defaults for empty strings).
\<close>

record args =
  task_type :: task_type
  start :: int
  end_arg :: int
  seed_start :: int
  seed_end :: int
  max_candidates :: int
  target_digits :: int
  prime_digits :: int
  max_steps :: int
  require_prime_factors :: bool
  mod5_residue :: int
  m_primes :: "int list"
  n_primes :: "int list"
  lambda_factors :: "(int \<times> int) list"
  require_prime :: bool

definition default_args :: "task_type \<Rightarrow> args" where
  "default_args t =
     \<lparr>task_type = t, start = 0, end_arg = 0, seed_start = 0, seed_end = 0, max_candidates = 0,
      target_digits = 22, prime_digits = 7, max_steps = 5000, require_prime_factors = False,
      mod5_residue = 2, m_primes = DEFAULT_M_PRIMES, n_primes = DEFAULT_N_PRIMES,
      lambda_factors = DEFAULT_LAMBDA_FACTORS, require_prime = False\<rparr>"

record hit =
  hit_n :: int
  hit_digits :: nat
  hit_meta :: meta

text \<open>
  The variables of \<^verbatim>\<open>main\<close>: \<open>checked\<close>, \<open>hits\<close> and \<open>errors\<close>. The field \<open>tested\<close> is
  not a variable of the source: it records, in order, each \<open>n\<close> on which
  \<^verbatim>\<open>is_bpsw_probable_prime\<close> is called, so that the calls can be counted.
\<close>

record run_state =
  checked :: int
  hits :: "hit list"
  errors :: "(int \<times> string) list"
  tested :: "int list"

definition initial_state :: run_state where
  "initial_state = \<lparr>checked = 0, hits = [], errors = [], tested = []\<rparr>"

text \<open>
  The test of a candidate and the append to \<open>hits\<close>, which end the body of each of the
  three loops. \<open>None\<close>: the test does not return.
\<close>

definition test_candidate :: "gmpy2 \<Rightarrow> int \<Rightarrow> meta \<Rightarrow> run_state \<Rightarrow> run_state option" where
  "test_candidate gmpy2 n m st =
     (case is_bpsw_probable_prime gmpy2 n of
        None \<Rightarrow> None
      | Some b \<Rightarrow>
          Some (st\<lparr>tested := tested st @ [n],
                   hits := (if b then hits st @ [\<lparr>hit_n = n, hit_digits = digits n, hit_meta = m\<rparr>]
                            else hits st)\<rparr>))"

text \<open>\<^verbatim>\<open>range(start, stop, step)\<close> for a positive step.\<close>

function py_range :: "int \<Rightarrow> int \<Rightarrow> int \<Rightarrow> int list" where
  "py_range i stop step =
     (if 0 < step \<and> i < stop then i # py_range (i + step) stop step else [])"
  by pat_completeness auto
termination
  by (relation "measure (\<lambda>(i, stop, step). nat (stop - i))") auto

declare py_range.simps [simp del]

text \<open>
  The three loops of \<^verbatim>\<open>main\<close>, over the values of their ranges. The result is
  \<open>None\<close> when a test does not return, \<open>Some (Inl e)\<close> when a generator raises, and
  \<open>Some (Inr st)\<close> with the state after the loop otherwise. The parameter \<open>frames\<close>
  of the seed mode is the number of frames left at the calls of \<^verbatim>\<open>egcd\<close>, which all
  lie at the same depth below \<^verbatim>\<open>main\<close>.
\<close>

fun range_loop :: "gmpy2 \<Rightarrow> args \<Rightarrow> int list \<Rightarrow> run_state \<Rightarrow> run_state option" where
  "range_loop gmpy2 a [] st = Some st"
| "range_loop gmpy2 a (n # ns) st =
     (if max_candidates a \<noteq> 0 \<and> checked st \<ge> max_candidates a then Some st
      else (case test_candidate gmpy2 n (Meta_range (task_type a)) (st\<lparr>checked := checked st + 1\<rparr>) of
              None \<Rightarrow> None
            | Some st1 \<Rightarrow> range_loop gmpy2 a ns st1))"

fun chernick_loop :: "gmpy2 \<Rightarrow> bool \<Rightarrow> int list \<Rightarrow> run_state \<Rightarrow> run_state option" where
  "chernick_loop gmpy2 require [] st = Some st"
| "chernick_loop gmpy2 require (k # ks) st =
     (case generate_chernick k require of
        None \<Rightarrow> chernick_loop gmpy2 require ks (st\<lparr>checked := checked st + 1\<rparr>)
      | Some (n, m) \<Rightarrow>
          (case test_candidate gmpy2 n m (st\<lparr>checked := checked st + 1\<rparr>) of
             None \<Rightarrow> None
           | Some st1 \<Rightarrow> chernick_loop gmpy2 require ks st1))"

definition generate ::
  "('r, 'x) random_scheme \<Rightarrow> nat \<Rightarrow> args \<Rightarrow> int \<Rightarrow> error + (int \<times> meta) option" where
  "generate R frames a seed =
     (if task_type a = Pomerance_lite
      then generate_pomerance_lite R seed (target_digits a) (prime_digits a) (max_steps a)
      else if task_type a = Pomerance_modular
      then generate_pomerance_modular R frames seed (target_digits a) (prime_digits a) (max_steps a)
             (m_primes a) (n_primes a) (mod5_residue a)
      else if task_type a = Lambda_plus_one
      then generate_lambda_plus_one R seed (target_digits a) (lambda_factors a) (require_prime a)
             (max_steps a)
      else Inr None)"

fun seed_loop ::
  "('r, 'x) random_scheme \<Rightarrow> nat \<Rightarrow> gmpy2 \<Rightarrow> args \<Rightarrow> int list \<Rightarrow> run_state
     \<Rightarrow> (error + run_state) option" where
  "seed_loop R frames gmpy2 a [] st = Some (Inr st)"
| "seed_loop R frames gmpy2 a (seed # seeds) st =
     (case generate R frames a seed of
        Inl e \<Rightarrow> Some (Inl e)
      | Inr None \<Rightarrow>
          seed_loop R frames gmpy2 a seeds
            (st\<lparr>checked := checked st + 1, errors := errors st @ [(seed, ''generation_failed'')]\<rparr>)
      | Inr (Some (n, m)) \<Rightarrow>
          (case test_candidate gmpy2 n m (st\<lparr>checked := checked st + 1\<rparr>) of
             None \<Rightarrow> None
           | Some st1 \<Rightarrow> seed_loop R frames gmpy2 a seeds st1))"

text \<open>
  The report that \<^verbatim>\<open>main\<close> prints (the two timestamps apart), with the record of the
  calls of the test beside it.
\<close>

record report =
  report_task_type :: task_type
  report_checked :: int
  hit_count :: nat
  report_hits :: "hit list"
  report_errors :: "(int \<times> string) list"
  report_tested :: "int list"

definition payload :: "args \<Rightarrow> run_state \<Rightarrow> report" where
  "payload a st =
     \<lparr>report_task_type = task_type a, report_checked = checked st, hit_count = length (hits st),
      report_hits = hits st, report_errors = errors st, report_tested = tested st\<rparr>"

definition main ::
  "('r, 'x) random_scheme \<Rightarrow> nat \<Rightarrow> gmpy2 \<Rightarrow> args \<Rightarrow> (error + report) option" where
  "main R frames gmpy2 a =
     (if task_type a = Main_odds \<or> task_type a = Large_numbers
      then (if start a = 0 \<and> end_arg a = 0
            then Some (Inl (SystemExit ''start/end required for range tasks''))
            else (let start1 = (if start a mod 2 = 0 then start a + 1 else start a)
                  in case range_loop gmpy2 a (py_range start1 (end_arg a + 1) 2) initial_state of
                       None \<Rightarrow> None
                     | Some st \<Rightarrow> Some (Inr (payload a st))))
      else if task_type a = Chernick
      then (if start a = 0 \<and> end_arg a = 0
            then Some (Inl (SystemExit ''start/end required for chernick tasks''))
            else (case chernick_loop gmpy2 (require_prime_factors a)
                         (py_range (start a) (end_arg a + 1) 1) initial_state of
                    None \<Rightarrow> None
                  | Some st \<Rightarrow> Some (Inr (payload a st))))
      else (let seed_start1 = (if seed_start a \<noteq> 0 then seed_start a else start a);
                seed_end1 = (if seed_end a \<noteq> 0 then seed_end a else end_arg a)
            in if seed_start1 = 0 \<and> seed_end1 = 0
               then Some (Inl (SystemExit ''seed range required for generator tasks''))
               else (case seed_loop R frames gmpy2 a (py_range seed_start1 (seed_end1 + 1) 1) initial_state of
                       None \<Rightarrow> None
                     | Some (Inl e) \<Rightarrow> Some (Inl e)
                     | Some (Inr st) \<Rightarrow> Some (Inr (payload a st)))))"

text \<open>
  A generator that walks through the range asked for, one value further at each draw
  (its state is the number of draws made): an instance of the parameter on which the
  generators can be run.
\<close>

definition counter_random :: "nat random" where
  "counter_random =
     \<lparr>Random = (\<lambda>seed. nat \<bar>seed\<bar>),
      randrange = (\<lambda>c lo hi step. (lo + step * (int c mod ((hi - lo + step - 1) div step)), Suc c)),
      randint = (\<lambda>c lo hi. (lo + int c mod (hi - lo + 1), Suc c))\<rparr>"

text \<open>
  The seeds that \<^verbatim>\<open>main\<close> iterates in seed mode:
  \<^verbatim>\<open>range(seed_start, seed_end + 1)\<close> after the fall-back to \<open>start\<close> and \<open>end\<close>.
\<close>

definition seed_range :: "args \<Rightarrow> int list" where
  "seed_range a =
     py_range (if seed_start a \<noteq> 0 then seed_start a else start a)
       ((if seed_end a \<noteq> 0 then seed_end a else end_arg a) + 1) 1"

text \<open>
  The arguments of two runs: \<^verbatim>\<open>--task-type main_odds --start 2 --end 100\<close>, and
  \<^verbatim>\<open>--task-type chernick --start s --end e --require-prime-factors\<close>.
\<close>

definition main_odds_2_100_args :: args where
  "main_odds_2_100_args = (default_args Main_odds)\<lparr>start := 2, end_arg := 100\<rparr>"

definition chernick_args :: "int \<Rightarrow> int \<Rightarrow> args" where
  "chernick_args s e =
     (default_args Chernick)\<lparr>start := s, end_arg := e, require_prime_factors := True\<rparr>"

text \<open>The two counts of a report, when the run ends with one.\<close>

definition report_counts :: "(error + report) option \<Rightarrow> (int \<times> nat) option" where
  "report_counts r =
     (case r of Some (Inr rep) \<Rightarrow> Some (report_checked rep, hit_count rep) | _ \<Rightarrow> None)"

section \<open>Primes\<close>

text \<open>
  The reference notion that the tests are measured against: \<open>p\<close> is prime when it is
  at least 2 and no \<open>d\<close> from 2 to \<open>p - 1\<close> divides it.
\<close>

definition is_prime :: "int \<Rightarrow> bool" where
  "is_prime p = (2 \<le> p \<and> (\<forall>d\<in>set [2..p - 1]. p mod d \<noteq> 0))"

section \<open>Properties of the arithmetic primitives\<close>

lemma isqrt_below_one: "n < 1 \<Longrightarrow> isqrt n = 0"
  by (subst isqrt.simps) simp

lemma isqrt_below_four: "1 \<le> n \<Longrightarrow> n < 4 \<Longrightarrow> isqrt n = 1"
  by (subst isqrt.simps) simp

lemma isqrt_nonneg: "0 \<le> isqrt n"
proof (induction n rule: isqrt.induct)
  case (1 n)
  show ?case
  proof (cases "n < 4")
    case True
    then show ?thesis
      by (cases "n < 1") (simp_all add: isqrt_below_one isqrt_below_four)
  next
    case False
    with "1.IH" have "0 \<le> isqrt (n div 4)" by simp
    with False show ?thesis by (subst isqrt.simps) (simp add: Let_def)
  qed
qed

lemma isqrt_floor: "0 \<le> n \<Longrightarrow> isqrt n * isqrt n \<le> n \<and> n < (isqrt n + 1) * (isqrt n + 1)"
proof (induction n rule: isqrt.induct)
  case (1 n)
  show ?case
  proof (cases "n < 4")
    case True
    with "1.prems" show ?thesis
      by (cases "n < 1") (simp_all add: isqrt_below_one isqrt_below_four)
  next
    case False
    define r0 where "r0 = isqrt (n div 4)"
    from False "1.prems" have "r0 * r0 \<le> n div 4 \<and> n div 4 < (r0 + 1) * (r0 + 1)"
      unfolding r0_def by (intro "1.IH") simp_all
    then have lo: "r0 * r0 \<le> n div 4" and hi: "n div 4 + 1 \<le> (r0 + 1) * (r0 + 1)" by simp_all
    have n4: "4 * (n div 4) \<le> n" "n \<le> 4 * (n div 4) + 3" by presburger+
    from lo n4 have l2: "(2 * r0) * (2 * r0) \<le> n" by (simp add: algebra_simps)
    from hi n4 have h2: "n < (2 * r0 + 2) * (2 * r0 + 2)" by (simp add: algebra_simps)
    have e: "isqrt n = (if (2 * r0 + 1) * (2 * r0 + 1) \<le> n then 2 * r0 + 1 else 2 * r0)"
      using False by (subst isqrt.simps) (simp add: Let_def r0_def)
    show ?thesis
    proof (cases "(2 * r0 + 1) * (2 * r0 + 1) \<le> n")
      case True
      with e h2 show ?thesis by (simp add: algebra_simps)
    next
      case nle: False
      with e l2 show ?thesis by (simp add: algebra_simps)
    qed
  qed
qed

lemma is_square_iff: "is_square n \<longleftrightarrow> (\<exists>r\<ge>0. r * r = n)"
proof
  assume "is_square n"
  then have "0 \<le> n" "isqrt n * isqrt n = n"
    by (auto simp: is_square_def Let_def split: if_splits)
  moreover note isqrt_nonneg [of n]
  ultimately show "\<exists>r\<ge>0. r * r = n" by blast
next
  assume "\<exists>r\<ge>0. r * r = n"
  then obtain r where r: "0 \<le> r" "r * r = n" by blast
  then have n: "0 \<le> n" by auto
  from isqrt_floor [OF n] have b: "isqrt n * isqrt n \<le> r * r" "r * r < (isqrt n + 1) * (isqrt n + 1)"
    using r by simp_all
  have "isqrt n \<le> r"
  proof (rule ccontr)
    assume "\<not> isqrt n \<le> r"
    then have "r + 1 \<le> isqrt n" by simp
    with r(1) have "(r + 1) * (r + 1) \<le> isqrt n * isqrt n" by (intro mult_mono) simp_all
    moreover have "r * r < (r + 1) * (r + 1)" using r(1) by (simp add: algebra_simps)
    ultimately show False using b(1) by linarith
  qed
  moreover have "r \<le> isqrt n"
  proof (rule ccontr)
    assume "\<not> r \<le> isqrt n"
    then have "isqrt n + 1 \<le> r" by simp
    moreover have "0 \<le> isqrt n + 1" using isqrt_nonneg [of n] by simp
    ultimately have "(isqrt n + 1) * (isqrt n + 1) \<le> r * r" using r(1) by (intro mult_mono) simp_all
    with b(2) show False by simp
  qed
  ultimately have "isqrt n = r" by simp
  with r n show "is_square n" by (simp add: is_square_def)
qed

lemma pow_mod_eq: "0 \<le> e \<Longrightarrow> pow_mod a e m = a ^ nat e mod m"
proof (induction a e m rule: pow_mod.induct)
  case (1 a e m)
  show ?case
  proof (cases "e \<le> 0")
    case True
    with "1.prems" have "e = 0" by simp
    then show ?thesis by (subst pow_mod.simps) simp
  next
    case False
    define k where "k = nat (e div 2)"
    from False have h: "pow_mod a (e div 2) m = a ^ k mod m"
      unfolding k_def by (intro "1.IH") simp_all
    have "a ^ k * a ^ k = a ^ (2 * k)"
      by (simp add: mult_2 power_add)
    then have sq: "(a ^ k mod m) * (a ^ k mod m) mod m = a ^ (2 * k) mod m"
      by (simp add: mod_mult_eq)
    show ?thesis
    proof (cases "e mod 2 = 1")
      case True
      with False have "e = 2 * (e div 2) + 1" "0 \<le> e div 2" by presburger+
      then have "nat e = nat (2 * (e div 2)) + nat 1" by (metis nat_add_distrib mult_nonneg_nonneg zero_le_numeral zero_le_one)
      then have e: "nat e = Suc (2 * k)" unfolding k_def by (simp add: nat_mult_distrib)
      have "pow_mod a e m = ((a ^ k mod m) * (a ^ k mod m) mod m) * a mod m"
        using False True h by (subst pow_mod.simps) (simp add: Let_def)
      also have "\<dots> = (a ^ (2 * k) mod m) * a mod m" by (simp only: sq)
      also have "\<dots> = a ^ (2 * k) * a mod m" by (rule mod_mult_left_eq)
      finally show ?thesis by (simp add: e mult.commute)
    next
      case odd: False
      with False have "e = 2 * (e div 2)" "0 \<le> e div 2" by presburger+
      then have "nat e = nat (2 * (e div 2))" by simp
      then have e: "nat e = 2 * k" unfolding k_def by (simp add: nat_mult_distrib)
      have "pow_mod a e m = (a ^ k mod m) * (a ^ k mod m) mod m"
        using False odd h by (subst pow_mod.simps) (simp add: Let_def)
      then show ?thesis by (simp only: sq e)
    qed
  qed
qed

lemma split_twos_stop: "d = 0 \<or> d mod 2 \<noteq> 0 \<Longrightarrow> split_twos d s = (d, s)"
  by (subst split_twos.simps) auto

lemma split_twos_step:
  "d \<noteq> 0 \<Longrightarrow> d mod 2 = 0 \<Longrightarrow> split_twos d s = split_twos (d div 2) (s + 1)"
  by (subst split_twos.simps) simp

lemma egcd_error: "egcd frames a b = Inl e \<Longrightarrow> e = RecursionError"
  by (induction frames arbitrary: a b) (auto split: if_splits sum.splits)

lemma euclid_frames_zero: "euclid_frames a 0 = 1"
  by (subst euclid_frames.simps) simp

lemma euclid_frames_rec: "b \<noteq> 0 \<Longrightarrow> euclid_frames a b = Suc (euclid_frames b (a mod b))"
  by (subst euclid_frames.simps) simp

lemma euclid_frames_pos: "0 < euclid_frames a b"
  by (cases "b = 0") (simp_all add: euclid_frames_zero euclid_frames_rec)

text \<open>The recursion ends: the second argument shrinks in absolute value at each call.\<close>

lemma euclid_frames_bound: "euclid_frames a b \<le> Suc (nat \<bar>b\<bar>)"
proof (induction a b rule: euclid_frames.induct)
  case (1 a b)
  show ?case
  proof (cases "b = 0")
    case True
    then show ?thesis by (simp add: euclid_frames_zero)
  next
    case False
    then have "\<bar>a mod b\<bar> < \<bar>b\<bar>" by (rule abs_mod_less)
    with "1.IH" [OF False] have "euclid_frames b (a mod b) \<le> nat \<bar>b\<bar>" by linarith
    with False show ?thesis by (simp add: euclid_frames_rec)
  qed
qed

text \<open>
  The call returns exactly when the frames left are at least the frames it needs, and
  raises \<^verbatim>\<open>RecursionError\<close> otherwise.
\<close>

lemma egcd_returns_iff: "(\<exists>r. egcd frames a b = Inr r) \<longleftrightarrow> euclid_frames a b \<le> frames"
proof (induction frames arbitrary: a b)
  case 0
  with euclid_frames_pos [of a b] show ?case by simp
next
  case (Suc frames)
  show ?case
  proof (cases "b = 0")
    case True
    then show ?thesis by (simp add: euclid_frames_zero)
  next
    case False
    have "(\<exists>r. egcd (Suc frames) a b = Inr r) \<longleftrightarrow> (\<exists>r. egcd frames b (a mod b) = Inr r)"
      using False by (auto split: sum.splits)
    with Suc [of b "a mod b"] False show ?thesis by (simp add: euclid_frames_rec)
  qed
qed

lemma egcd_recursion_error:
  assumes "frames < euclid_frames a b"
  shows "egcd frames a b = Inl RecursionError"
proof (cases "egcd frames a b")
  case (Inl e)
  then show ?thesis using egcd_error [of frames a b e] by simp
next
  case (Inr r)
  then have "euclid_frames a b \<le> frames" using egcd_returns_iff [of frames a b] by blast
  with assms show ?thesis by simp
qed

lemma egcd_step:
  assumes "egcd (Suc frames) a b = Inr (g, x, y)" and "b \<noteq> 0"
  obtains x1 y1 where "egcd frames b (a mod b) = Inr (g, x1, y1)"
    and "x = y1" and "y = x1 - (a div b) * y1"
  using assms by (auto split: sum.splits)

lemma egcd_bezout: "egcd frames a b = Inr (g, x, y) \<Longrightarrow> g = a * x + b * y"
proof (induction frames arbitrary: a b g x y)
  case 0
  then show ?case by simp
next
  case (Suc frames)
  show ?case
  proof (cases "b = 0")
    case True
    with Suc.prems show ?thesis by simp
  next
    case False
    from Suc.prems False obtain x1 y1
      where r: "egcd frames b (a mod b) = Inr (g, x1, y1)"
        and e: "x = y1" "y = x1 - (a div b) * y1"
      by (rule egcd_step)
    from Suc.IH [OF r] have g: "g = b * x1 + a mod b * y1" .
    have m: "a mod b = a - b * (a div b)"
      by (simp add: minus_mult_div_eq_mod)
    show ?thesis
      unfolding e by (subst g, subst m) (simp add: algebra_simps)
  qed
qed

lemma egcd_sign:
  "egcd frames a b = Inr (g, x, y) \<Longrightarrow> (0 \<le> g \<longleftrightarrow> 0 < b \<or> (b = 0 \<and> 0 \<le> a))"
proof (induction frames arbitrary: a b g x y)
  case 0
  then show ?case by simp
next
  case (Suc frames)
  show ?case
  proof (cases "b = 0")
    case True
    with Suc.prems show ?thesis by auto
  next
    case False
    from Suc.prems False obtain x1 y1
      where r: "egcd frames b (a mod b) = Inr (g, x1, y1)"
      by (rule egcd_step)
    note ih = Suc.IH [OF r]
    show ?thesis
    proof (cases "0 < b")
      case True
      have "0 \<le> a mod b" using True by simp
      then have "0 < a mod b \<or> a mod b = 0" by linarith
      with True ih show ?thesis by auto
    next
      case neg: False
      with False have b: "b < 0" by simp
      have "a mod b \<le> 0" using b by simp
      then have "\<not> 0 < a mod b" by linarith
      with b neg ih show ?thesis by auto
    qed
  qed
qed

lemma egcd_abs_gcd: "egcd frames a b = Inr (g, x, y) \<Longrightarrow> \<bar>g\<bar> = gcd a b"
proof (induction frames arbitrary: a b g x y)
  case 0
  then show ?case by simp
next
  case (Suc frames)
  show ?case
  proof (cases "b = 0")
    case True
    with Suc.prems show ?thesis by auto
  next
    case False
    from Suc.prems False obtain x1 y1
      where r: "egcd frames b (a mod b) = Inr (g, x1, y1)"
      by (rule egcd_step)
    from Suc.IH [OF r] have "\<bar>g\<bar> = gcd b (a mod b)" .
    also have "\<dots> = gcd a b" by (metis gcd.commute gcd_red_int)
    finally show ?thesis .
  qed
qed

text \<open>
  An input of 230 digits on which the recursion is deep, the consecutive Fibonacci numbers
  \<open>F(1101)\<close> and \<open>F(1100)\<close>: the call needs more frames than the 1000 of the default
  limit, even when none of them is in use at the call.
\<close>

lemma egcd_fibonacci_depth:
  "egcd 1000
        55706633420031512130333709644074735607824170570811374472759926382667103176171121068849166647886947274866757587905982819073937985640013885353206627510851141259556915050771682368201865787127102463849847296791079327120609036362628226
        34428592852410271940083613070919630635781894724017874396545964292826864597491403229723364359749415183436491553996529359881593653825629442519718308678951540824183325844045884746598230684751416672062124540392876245684047939604503325
      = Inl RecursionError"
  by code_simp

text \<open>
  Claim C6, as stated: for all integers \<open>a\<close> and \<open>b\<close>, \<^verbatim>\<open>egcd(a, b)\<close> returns \<open>(g, x, y)\<close>
  with \<open>g = a \<cdot> x + b \<cdot> y\<close> and \<open>g \<ge> 0\<close>. The sign fails: \<^verbatim>\<open>egcd(-1, 0)\<close> returns
  \<open>(-1, 1, 0)\<close>, because the base case returns \<open>a\<close> as it is. And the call does not
  return for all integers: with the whole default limit of 1000 frames left, the call at
  the Fibonacci numbers \<open>F(1101)\<close> and \<open>F(1100)\<close> raises \<^verbatim>\<open>RecursionError\<close>.
\<close>

theorem egcd_negative_counterexample:
  "egcd 1000 (- 1) 0 = Inr (- 1, 1, 0) \<and> \<not> (0::int) \<le> - 1
   \<and> egcd 1000
        55706633420031512130333709644074735607824170570811374472759926382667103176171121068849166647886947274866757587905982819073937985640013885353206627510851141259556915050771682368201865787127102463849847296791079327120609036362628226
        34428592852410271940083613070919630635781894724017874396545964292826864597491403229723364359749415183436491553996529359881593653825629442519718308678951540824183325844045884746598230684751416672062124540392876245684047939604503325
      = Inl RecursionError"
proof -
  have "egcd 1000 (- 1) 0 = Inr (- 1, 1, 0)" by code_simp
  with egcd_fibonacci_depth show ?thesis by simp
qed

text \<open>
  Claim C6, amended: for all integers \<open>a\<close> and \<open>b\<close>, \<^verbatim>\<open>egcd(a, b)\<close> returns when the
  recursion limit leaves it the frames it needs (one for each step of Euclid's algorithm,
  at most \<open>|b| + 1\<close>) and raises \<^verbatim>\<open>RecursionError\<close> otherwise; whenever it returns
  \<open>(g, x, y)\<close>, \<open>g = a \<cdot> x + b \<cdot> y\<close>, and \<open>g \<ge> 0\<close> exactly when \<open>b > 0\<close>, or \<open>b = 0\<close> and
  \<open>a \<ge> 0\<close> (in particular for all non-negative inputs).
\<close>

theorem egcd_bezout_and_sign:
  "(euclid_frames a b \<le> frames \<longrightarrow> (\<exists>g x y. egcd frames a b = Inr (g, x, y)))
   \<and> (frames < euclid_frames a b \<longrightarrow> egcd frames a b = Inl RecursionError)
   \<and> euclid_frames a b \<le> Suc (nat \<bar>b\<bar>)
   \<and> (egcd frames a b = Inr (g, x, y) \<longrightarrow>
        g = a * x + b * y \<and> (0 \<le> g \<longleftrightarrow> 0 < b \<or> (b = 0 \<and> 0 \<le> a)))"
proof (intro conjI impI)
  assume "euclid_frames a b \<le> frames"
  then obtain r where "egcd frames a b = Inr r"
    using egcd_returns_iff [of frames a b] by blast
  then show "\<exists>g x y. egcd frames a b = Inr (g, x, y)"
    by (cases r) auto
next
  assume "frames < euclid_frames a b"
  then show "egcd frames a b = Inl RecursionError" by (rule egcd_recursion_error)
next
  show "euclid_frames a b \<le> Suc (nat \<bar>b\<bar>)" by (rule euclid_frames_bound)
next
  assume e: "egcd frames a b = Inr (g, x, y)"
  then show "g = a * x + b * y" by (rule egcd_bezout)
  from e show "0 \<le> g \<longleftrightarrow> 0 < b \<or> (b = 0 \<and> 0 \<le> a)" by (rule egcd_sign)
qed

theorem egcd_bezout_and_sign_witness:
  "euclid_frames 12 18 = 4
   \<and> egcd 4 12 18 = Inr (6, - 1, 1) \<and> (6::int) = 12 * (- 1) + 18 * 1 \<and> (0::int) \<le> 6
   \<and> egcd 3 12 18 = Inl RecursionError"
proof -
  have f: "euclid_frames 12 18 = 4" by code_simp
  have e: "egcd 4 12 18 = Inr (6, - 1, 1)" by code_simp
  from egcd_bezout_and_sign [of 12 18 3 6 "- 1" 1] f
  have "egcd 3 12 18 = Inl RecursionError" by simp
  moreover from egcd_bezout_and_sign [of 12 18 4 6 "- 1" 1] e
  have "(6::int) = 12 * (- 1) + 18 * 1 \<and> (0::int) \<le> 6" by simp
  ultimately show ?thesis using f e by simp
qed

lemma crt_pair_recursion_error:
  assumes "frames < euclid_frames m1 m2"
  shows "crt_pair frames a1 m1 a2 m2 = Inl RecursionError"
  using egcd_recursion_error [OF assms] by (simp add: crt_pair_def)

lemma crt_pair_positive:
  assumes m1: "0 < m1" and m2: "m2 \<noteq> 0" and fr: "euclid_frames m1 m2 \<le> frames"
    and dv: "gcd m1 m2 dvd (a2 - a1)"
  shows "\<exists>r. crt_pair frames a1 m1 a2 m2 = Inr (r, lcm m1 m2)
           \<and> r mod m1 = a1 mod m1 \<and> r mod m2 = a2 mod m2 \<and> 0 \<le> r \<and> r < lcm m1 m2"
proof -
  from fr obtain res where "egcd frames m1 m2 = Inr res"
    using egcd_returns_iff [of frames m1 m2] by blast
  then obtain g x y where e: "egcd frames m1 m2 = Inr (g, x, y)"
    by (cases res) auto
  from egcd_abs_gcd [OF e] have ag: "\<bar>g\<bar> = gcd m1 m2" .
  from m1 ag have g0: "g \<noteq> 0" by auto
  from egcd_sign [OF e] m2 have gs: "0 \<le> g \<longleftrightarrow> 0 < m2" by simp
  from egcd_bezout [OF e] have bez: "g = m1 * x + m2 * y" .
  have gd: "g dvd m1" "g dvd m2" "g dvd a2 - a1"
  proof -
    have "\<bar>g\<bar> dvd m1" "\<bar>g\<bar> dvd m2" "\<bar>g\<bar> dvd a2 - a1"
      unfolding ag using dv by simp_all
    then show "g dvd m1" "g dvd m2" "g dvd a2 - a1" by simp_all
  qed
  define n1 where "n1 = m1 div g"
  define n2 where "n2 = m2 div g"
  define k where "k = (a2 - a1) div g"
  have m1g: "m1 = g * n1" unfolding n1_def using gd(1) by simp
  have m2g: "m2 = g * n2" unfolding n2_def using gd(2) by simp
  have ak: "a2 - a1 = g * k" unfolding k_def using gd(3) by simp
  have n2p: "0 < n2"
  proof (cases "0 < m2")
    case True
    with gs g0 have "0 < g" by simp
    with True m2g show ?thesis by (simp add: zero_less_mult_iff)
  next
    case False
    with gs m2 have "g < 0" "m2 < 0" by simp_all
    with m2g show ?thesis by (simp add: mult_less_0_iff)
  qed
  define L where "L = n1 * m2"
  have Lm: "L = m1 * n2" unfolding L_def by (subst m1g, subst m2g) simp
  have Lp: "0 < L" unfolding Lm using m1 n2p by simp
  have "lcm m1 m2 * \<bar>g\<bar> = \<bar>m1 * m2\<bar>"
    unfolding ag by (simp add: abs_mult)
  also have "m1 * m2 = L * g" unfolding L_def by (subst m1g) simp
  also have "\<bar>L * g\<bar> = L * \<bar>g\<bar>" using Lp by (simp add: abs_mult)
  finally have lcm: "lcm m1 m2 = L" using g0 by simp
  define t where "t = (k * x) mod n2"
  define j where "j = (k * x) div n2"
  define r where "r = (a1 + m1 * t) mod L"
  have tj: "t = k * x - n2 * j" unfolding t_def j_def by (simp add: minus_mult_div_eq_mod)
  have c: "crt_pair frames a1 m1 a2 m2 = Inr (r, L)"
    using e g0 gd(3) n2p Lp
    by (simp add: crt_pair_def Let_def n1_def [symmetric] n2_def [symmetric]
        k_def [symmetric] L_def [symmetric] t_def [symmetric] r_def [symmetric] dvd_eq_mod_eq_0)
  have r1: "r mod m1 = a1 mod m1"
  proof -
    have "m1 dvd L" unfolding Lm by simp
    then have "r mod m1 = (a1 + m1 * t) mod m1" unfolding r_def by (rule mod_mod_cancel)
    then show ?thesis by simp
  qed
  have r2: "r mod m2 = a2 mod m2"
  proof -
    have "m2 dvd L" unfolding L_def by simp
    then have "r mod m2 = (a1 + m1 * t) mod m2" unfolding r_def by (rule mod_mod_cancel)
    moreover have "a1 + m1 * t = a2 + m2 * (- (k * y) - n1 * j)"
    proof -
      have mx: "m1 * x = g - m2 * y" using bez by simp
      have mn: "m1 * n2 = n1 * m2" using Lm L_def by simp
      have "m1 * t = k * (m1 * x) - (m1 * n2) * j"
        unfolding tj by (simp add: algebra_simps)
      also have "\<dots> = k * (g - m2 * y) - (n1 * m2) * j"
        by (simp only: mx mn)
      also have "\<dots> = g * k + m2 * (- (k * y) - n1 * j)"
        by (simp add: algebra_simps)
      finally show ?thesis using ak by simp
    qed
    ultimately show ?thesis by simp
  qed
  have "0 \<le> r" "r < L" unfolding r_def using Lp by simp_all
  with c r1 r2 lcm show ?thesis by simp
qed

lemma crt_pair_incompatible:
  assumes m1: "0 < m1" and m2: "m2 \<noteq> 0" and fr: "euclid_frames m1 m2 \<le> frames"
  shows "crt_pair frames a1 m1 a2 m2 = Inl (ValueError ''incompatible congruences'')
           \<longleftrightarrow> \<not> gcd m1 m2 dvd (a2 - a1)"
proof (cases "gcd m1 m2 dvd (a2 - a1)")
  case True
  from crt_pair_positive [OF m1 m2 fr True] True show ?thesis by auto
next
  case False
  from fr obtain res where "egcd frames m1 m2 = Inr res"
    using egcd_returns_iff [of frames m1 m2] by blast
  then obtain g x y where e: "egcd frames m1 m2 = Inr (g, x, y)"
    by (cases res) auto
  from egcd_abs_gcd [OF e] have ag: "\<bar>g\<bar> = gcd m1 m2" .
  from m1 ag have g0: "g \<noteq> 0" by auto
  have "\<bar>g\<bar> dvd a2 - a1 \<longleftrightarrow> g dvd a2 - a1" by simp
  with False have "\<not> g dvd a2 - a1" unfolding ag by simp
  then have "(a2 - a1) mod g \<noteq> 0" by (simp add: dvd_eq_mod_eq_0)
  with e g0 False show ?thesis by (simp add: crt_pair_def)
qed

text \<open>
  Claim C5, as stated, is about all integers. With the modulus \<open>m1 = -3\<close> (and
  \<open>m2 = 1\<close>, \<open>a1 = a2 = 1\<close>) the gcd divides \<open>a2 - a1\<close> and \<^verbatim>\<open>crt_pair\<close> returns
  \<open>(-2, -3)\<close>: the second component is not the least common multiple 3, and the first is
  negative. With \<open>m1 = m2 = 0\<close> and \<open>a1 \<noteq> a2\<close> the exception is
  \<^verbatim>\<open>ZeroDivisionError\<close>, not the one of incompatible congruences. The source takes
  the sign of the result from \<open>m1\<close> alone and divides by \<open>m2 // g\<close>, so these are the
  inputs it excludes: \<open>m1 \<le> 0\<close> and \<open>m2 = 0\<close>. And on the positive moduli \<open>F(1101)\<close> and
  \<open>F(1100)\<close> the call of \<^verbatim>\<open>egcd\<close> exceeds the default recursion limit: the exception
  is \<^verbatim>\<open>RecursionError\<close>, which is neither of the two outcomes of the claim.
\<close>

theorem crt_pair_negative_modulus_counterexample:
  "crt_pair 1000 1 (- 3) 1 1 = Inr (- 2, - 3)
   \<and> gcd (- 3) (1::int) dvd (1 - 1) \<and> lcm (- 3) (1::int) = 3
   \<and> crt_pair 1000 0 0 1 0 = Inl ZeroDivisionError
   \<and> crt_pair 1000 0
        55706633420031512130333709644074735607824170570811374472759926382667103176171121068849166647886947274866757587905982819073937985640013885353206627510851141259556915050771682368201865787127102463849847296791079327120609036362628226 1
        34428592852410271940083613070919630635781894724017874396545964292826864597491403229723364359749415183436491553996529359881593653825629442519718308678951540824183325844045884746598230684751416672062124540392876245684047939604503325
      = Inl RecursionError"
proof -
  have "crt_pair 1000 1 (- 3) 1 1 = Inr (- 2, - 3)"
    "crt_pair 1000 0 0 1 0 = Inl ZeroDivisionError"
    by code_simp+
  moreover have "crt_pair 1000 0
        55706633420031512130333709644074735607824170570811374472759926382667103176171121068849166647886947274866757587905982819073937985640013885353206627510851141259556915050771682368201865787127102463849847296791079327120609036362628226 1
        34428592852410271940083613070919630635781894724017874396545964292826864597491403229723364359749415183436491553996529359881593653825629442519718308678951540824183325844045884746598230684751416672062124540392876245684047939604503325
      = Inl RecursionError"
    by (simp add: crt_pair_def egcd_fibonacci_depth)
  ultimately show ?thesis by simp
qed

text \<open>
  Claim C5, amended: for all integers \<open>a1\<close>, \<open>a2\<close>, every modulus \<open>m1 > 0\<close> and every
  \<open>m2 \<noteq> 0\<close> (so for all positive moduli), when the recursion limit leaves
  \<^verbatim>\<open>egcd(m1, m2)\<close> the frames it needs (one for each step of Euclid's algorithm),
  \<^verbatim>\<open>crt_pair(a1, m1, a2, m2)\<close> raises the error of incompatible congruences if and only
  if \<open>gcd(m1, m2)\<close> does not divide \<open>a2 - a1\<close>, and otherwise it returns
  \<open>(r, lcm(m1, m2))\<close> with \<open>r \<equiv> a1 (mod m1)\<close>, \<open>r \<equiv> a2 (mod m2)\<close> and
  \<open>0 \<le> r < lcm(m1, m2)\<close>; when the limit leaves fewer frames, it raises
  \<^verbatim>\<open>RecursionError\<close>.
\<close>

theorem crt_pair_spec:
  assumes "0 < m1" and "m2 \<noteq> 0"
  shows "(frames < euclid_frames m1 m2 \<longrightarrow> crt_pair frames a1 m1 a2 m2 = Inl RecursionError)
       \<and> (euclid_frames m1 m2 \<le> frames \<longrightarrow>
            (crt_pair frames a1 m1 a2 m2 = Inl (ValueError ''incompatible congruences'')
               \<longleftrightarrow> \<not> gcd m1 m2 dvd (a2 - a1))
            \<and> (gcd m1 m2 dvd (a2 - a1) \<longrightarrow>
                 (\<exists>r. crt_pair frames a1 m1 a2 m2 = Inr (r, lcm m1 m2)
                      \<and> r mod m1 = a1 mod m1 \<and> r mod m2 = a2 mod m2
                      \<and> 0 \<le> r \<and> r < lcm m1 m2)))"
  using crt_pair_recursion_error [of frames m1 m2 a1 a2]
    crt_pair_incompatible [OF assms, of frames a1 a2]
    crt_pair_positive [OF assms, of frames a2 a1]
  by blast

theorem crt_pair_spec_witness:
  "(0::int) < 4 \<and> (6::int) \<noteq> 0 \<and> euclid_frames 4 6 = 4
   \<and> gcd 4 (6::int) dvd (5 - 1) \<and> crt_pair 4 1 4 5 6 = Inr (5, 12) \<and> lcm 4 (6::int) = 12
   \<and> (5::int) mod 4 = 1 mod 4 \<and> (5::int) mod 6 = 5 mod 6
   \<and> \<not> gcd 4 (6::int) dvd (2 - 1)
   \<and> crt_pair 4 1 4 2 6 = Inl (ValueError ''incompatible congruences'')
   \<and> crt_pair 3 1 4 5 6 = Inl RecursionError"
proof -
  have g: "gcd 4 (6::int) = 2" and l: "lcm 4 (6::int) = 12"
    by code_simp+
  have f: "euclid_frames 4 6 = 4" by code_simp
  have c: "crt_pair 4 1 4 5 6 = Inr (5, 12)" by code_simp
  from crt_pair_spec [of 4 6 4 1 2] g f
  have "crt_pair 4 1 4 2 6 = Inl (ValueError ''incompatible congruences'')" by simp
  moreover from crt_pair_spec [of 4 6 3 1 5] f
  have "crt_pair 3 1 4 5 6 = Inl RecursionError" by simp
  ultimately show ?thesis using g l c f by simp
qed

section \<open>Properties of the primality tests\<close>

text \<open>
  Claim C10: for every odd \<open>n \<ge> 3\<close>, composites such as 9 included,
  \<^verbatim>\<open>miller_rabin(n, [])\<close> with the empty list of bases returns true: no base is there to
  refute \<open>n\<close>.
\<close>

theorem miller_rabin_empty_bases: "3 \<le> n \<Longrightarrow> n mod 2 = 1 \<Longrightarrow> miller_rabin n [] = True"
  by (simp add: miller_rabin_def split: prod.splits)

theorem miller_rabin_empty_bases_witness:
  "(3::int) \<le> 9 \<and> (9::int) mod 2 = 1 \<and> miller_rabin 9 [] = True"
  using miller_rabin_empty_bases [of 9] by simp

subsection \<open>\<^verbatim>\<open>miller_rabin\<close> on primes\<close>

lemma is_prime_ge2: "is_prime p \<Longrightarrow> 2 \<le> p"
  by (simp add: is_prime_def)

lemma is_prime_divisor:
  assumes "is_prime p" "d dvd p" "0 < d"
  shows "d = 1 \<or> d = p"
proof (rule ccontr)
  assume n: "\<not> (d = 1 \<or> d = p)"
  from assms have "d \<le> p" by (auto simp: is_prime_def intro: zdvd_imp_le)
  with n assms(3) have "d \<in> set [2..p - 1]" by simp
  with assms(1) have "p mod d \<noteq> 0" by (simp add: is_prime_def)
  with assms(2) show False by (simp add: dvd_eq_mod_eq_0)
qed

lemma is_prime_coprime:
  assumes "is_prime p" "\<not> p dvd a"
  shows "coprime p a"
proof -
  have "gcd p a dvd p" by simp
  moreover have "0 < gcd p a" using assms(1) by (simp add: is_prime_def gcd_pos_int)
  ultimately have "gcd p a = 1 \<or> gcd p a = p"
    using is_prime_divisor [OF assms(1)] by blast
  moreover have "gcd p a \<noteq> p"
  proof
    assume "gcd p a = p"
    then have "p dvd a" by (metis gcd_dvd2)
    with assms(2) show False ..
  qed
  ultimately show ?thesis by (simp add: coprime_iff_gcd_eq_1)
qed

lemma is_prime_dvd_mult:
  assumes "is_prime p" "p dvd a * b"
  shows "p dvd a \<or> p dvd b"
proof (cases "p dvd a")
  case False
  with assms(1) have "coprime p a" by (rule is_prime_coprime)
  with assms(2) show ?thesis by (simp add: coprime_dvd_mult_right_iff)
qed simp

lemma is_prime_dvd_choose:
  assumes p: "is_prime p" and k: "0 < k" "k < nat p"
  shows "p dvd int (nat p choose k)"
proof -
  have "k * (nat p choose k) = nat p * ((nat p - 1) choose (k - 1))"
    using k(1) by (rule times_binomial_minus1_eq)
  then have "int k * int (nat p choose k) = int (nat p) * int ((nat p - 1) choose (k - 1))"
    by (metis of_nat_mult)
  moreover have "int (nat p) = p" using p by (simp add: is_prime_def)
  ultimately have "p dvd int k * int (nat p choose k)" by simp
  then have "p dvd int k \<or> p dvd int (nat p choose k)"
    using p by (rule is_prime_dvd_mult [rotated])
  moreover have "\<not> p dvd int k"
  proof
    assume "p dvd int k"
    then have "p \<le> int k" using k(1) by (intro zdvd_imp_le) simp_all
    with k(2) show False by simp
  qed
  ultimately show ?thesis by simp
qed

lemma fermat_step:
  fixes x :: int
  assumes p: "is_prime p"
  shows "(x + 1) ^ nat p mod p = (x ^ nat p + 1) mod p"
proof -
  define q where "q = nat p"
  define f where "f k = int (q choose k) * x ^ k" for k
  from is_prime_ge2 [OF p] have q2: "2 \<le> q" unfolding q_def by linarith
  have "(x + 1) ^ q = (\<Sum>k\<le>q. of_nat (q choose k) * x ^ k * 1 ^ (q - k))"
    by (rule binomial_ring)
  then have e: "(x + 1) ^ q = (\<Sum>k\<le>q. f k)" by (simp add: f_def)
  have s: "{..q} = insert 0 (insert q {1..<q})" using q2 by auto
  have "(\<Sum>k\<le>q. f k) = f 0 + (f q + (\<Sum>k\<in>{1..<q}. f k))"
    unfolding s using q2 by (subst sum.insert, simp, simp, subst sum.insert) simp_all
  also have "f 0 = 1" by (simp add: f_def)
  also have "f q = x ^ q" by (simp add: f_def)
  finally have d: "(x + 1) ^ q - (x ^ q + 1) = (\<Sum>k\<in>{1..<q}. f k)"
    using e by simp
  have "p dvd (\<Sum>k\<in>{1..<q}. f k)"
  proof (rule dvd_sum)
    fix k assume "k \<in> {1..<q}"
    then have "p dvd int (q choose k)"
      unfolding q_def using is_prime_dvd_choose [OF p, of k] by simp
    then show "p dvd f k" by (simp add: f_def)
  qed
  with d have "p dvd (x + 1) ^ q - (x ^ q + 1)" by simp
  then have "(x + 1) ^ q mod p = (x ^ q + 1) mod p"
    by (simp add: mod_eq_dvd_iff)
  then show ?thesis by (simp add: q_def)
qed

lemma fermat_nat: "is_prime p \<Longrightarrow> int n ^ nat p mod p = int n mod p"
proof (induction n)
  case 0
  from is_prime_ge2 [OF 0] have "0 < nat p" by linarith
  then show ?case by (simp add: zero_power)
next
  case (Suc n)
  have "int (Suc n) ^ nat p mod p = (int n + 1) ^ nat p mod p"
    by (simp add: add.commute)
  also have "\<dots> = (int n ^ nat p + 1) mod p"
    using Suc.prems by (rule fermat_step)
  also have "\<dots> = (int n ^ nat p mod p + 1) mod p"
    by (rule mod_add_left_eq [symmetric])
  also have "\<dots> = (int n mod p + 1) mod p"
    using Suc by simp
  also have "\<dots> = (int n + 1) mod p"
    by (rule mod_add_left_eq)
  also have "\<dots> = int (Suc n) mod p"
    by (simp add: add.commute)
  finally show ?case .
qed

lemma fermat_int:
  assumes "is_prime p"
  shows "a ^ nat p mod p = a mod p"
proof -
  from assms have "0 < p" by (simp add: is_prime_def)
  then have "0 \<le> a mod p" by simp
  then obtain n where n: "a mod p = int n" by (metis nonneg_int_cases)
  have "a ^ nat p mod p = (a mod p) ^ nat p mod p" by (simp add: power_mod)
  also have "\<dots> = int n mod p" unfolding n using assms by (rule fermat_nat)
  also have "\<dots> = a mod p" by (simp flip: n)
  finally show ?thesis .
qed

lemma fermat_little:
  assumes p: "is_prime p" and a: "a mod p \<noteq> 0"
  shows "a ^ nat (p - 1) mod p = 1"
proof -
  from p have p2: "2 \<le> p" by (simp add: is_prime_def)
  then have np: "nat p = Suc (nat (p - 1))" by simp
  have "p dvd a ^ nat p - a"
    using fermat_int [OF p, of a] by (simp add: mod_eq_dvd_iff)
  also have "a ^ nat p - a = a * (a ^ nat (p - 1) - 1)"
    unfolding np by (simp add: algebra_simps)
  finally have "p dvd a \<or> p dvd a ^ nat (p - 1) - 1"
    using p by (intro is_prime_dvd_mult)
  moreover have "\<not> p dvd a" using a by (simp add: dvd_eq_mod_eq_0)
  ultimately have "p dvd a ^ nat (p - 1) - 1" by simp
  then have "a ^ nat (p - 1) mod p = 1 mod p" by (simp add: mod_eq_dvd_iff)
  with p2 show ?thesis by simp
qed

lemma square_root_of_one:
  assumes p: "is_prime p" and x: "0 \<le> x" "x < p" and sq: "x * x mod p = 1"
  shows "x = 1 \<or> x = p - 1"
proof -
  from p have p2: "2 \<le> p" by (simp add: is_prime_def)
  from sq p2 have "x * x mod p = 1 mod p" by simp
  then have "p dvd x * x - 1" by (simp add: mod_eq_dvd_iff)
  also have "x * x - 1 = (x - 1) * (x + 1)" by (simp add: algebra_simps)
  finally have "p dvd x - 1 \<or> p dvd x + 1" using p by (intro is_prime_dvd_mult)
  then show ?thesis
  proof
    assume d: "p dvd x - 1"
    show ?thesis
    proof (cases "x = 0")
      case True
      with sq p2 show ?thesis by simp
    next
      case False
      with x have "0 \<le> x - 1" "x - 1 < p" by simp_all
      with d have "x - 1 = 0" by (metis zdvd_not_zless less_le)
      then show ?thesis by simp
    qed
  next
    assume d: "p dvd x + 1"
    from x have "0 < x + 1" "x + 1 \<le> p" by simp_all
    with d have "x + 1 = p" by (metis zdvd_imp_le order_antisym)
    then show ?thesis by simp
  qed
qed

lemma split_twos_decomp:
  "d0 \<noteq> 0 \<Longrightarrow> split_twos d0 s0 = (d, s) \<Longrightarrow>
   s0 \<le> s \<and> d0 = d * 2 ^ (s - s0) \<and> d mod 2 = 1"
proof (induction d0 s0 rule: split_twos.induct)
  case (1 d0 s0)
  show ?case
  proof (cases "d0 mod 2 = 0")
    case True
    with "1.prems" have nz: "d0 div 2 \<noteq> 0" by presburger
    from "1.prems" True have "split_twos (d0 div 2) (s0 + 1) = (d, s)"
      by (simp add: split_twos_step)
    with "1.IH" nz "1.prems"(1) True
    have ih: "s0 + 1 \<le> s" "d0 div 2 = d * 2 ^ (s - (s0 + 1))" "d mod 2 = 1" by simp_all
    from ih(1) have "s - s0 = Suc (s - (s0 + 1))" by simp
    moreover from True have "d0 = 2 * (d0 div 2)" by presburger
    ultimately have "d0 = d * 2 ^ (s - s0)" using ih(2) by simp
    with ih show ?thesis by simp
  next
    case False
    with "1.prems" have "d = d0" "s = s0" by (simp_all add: split_twos_stop)
    with False show ?thesis by simp
  qed
qed

lemma mr_squarings_prime:
  assumes p: "is_prime p"
  shows "0 \<le> x \<Longrightarrow> x < p \<Longrightarrow> x \<noteq> 1 \<Longrightarrow> x \<noteq> p - 1 \<Longrightarrow> x ^ (2 ^ Suc k) mod p = 1 \<Longrightarrow>
         \<not> mr_squarings p x k"
proof (induction k arbitrary: x)
  case 0
  then have "x * x mod p = 1" by (simp add: power2_eq_square)
  with square_root_of_one [OF p "0.prems"(1,2)] "0.prems"(3,4) show ?case by blast
next
  case (Suc k)
  define x1 where "x1 = x ^ 2 mod p"
  from is_prime_ge2 [OF p] have p0: "0 < p" by simp
  have pm: "pow_mod x 2 p = x1"
    unfolding x1_def by (subst pow_mod_eq) simp_all
  have r: "0 \<le> x1" "x1 < p" using p0 by (simp_all add: x1_def)
  have "x1 ^ (2 ^ Suc k) mod p = (x ^ 2) ^ (2 ^ Suc k) mod p"
    unfolding x1_def by (rule power_mod)
  also have "\<dots> = x ^ (2 ^ Suc (Suc k)) mod p"
    by (simp flip: power_mult)
  finally have one: "x1 ^ (2 ^ Suc k) mod p = 1" using Suc.prems(5) by simp
  have n1: "x1 \<noteq> 1"
  proof
    assume "x1 = 1"
    then have "x * x mod p = 1" by (simp add: x1_def power2_eq_square)
    with square_root_of_one [OF p Suc.prems(1,2)] Suc.prems(3,4) show False by blast
  qed
  show ?case
  proof (cases "x1 = p - 1")
    case True
    then show ?thesis by (simp add: pm)
  next
    case False
    from Suc.IH [OF r n1 False one] False show ?thesis by (simp add: pm)
  qed
qed

lemma mr_bases_prime:
  assumes p: "is_prime p" and dec: "p - 1 = d * 2 ^ s" and s: "0 < s" and d: "0 \<le> d"
  shows "mr_bases p d s bases"
proof (induction bases)
  case Nil
  show ?case by simp
next
  case (Cons a bases)
  from is_prime_ge2 [OF p] have p0: "0 < p" by simp
  show ?case
  proof (cases "a mod p = 0")
    case True
    with Cons show ?thesis by simp
  next
    case False
    define x where "x = a ^ nat d mod p"
    have pm: "pow_mod a d p = x" unfolding x_def using d by (rule pow_mod_eq)
    have r: "0 \<le> x" "x < p" using p0 by (simp_all add: x_def)
    from s obtain k where k: "s = Suc k" by (cases s) auto
    have "nat (p - 1) = nat d * 2 ^ s"
      unfolding dec using d by (simp add: nat_mult_distrib nat_power_eq)
    then have "x ^ (2 ^ s) mod p = a ^ nat (p - 1) mod p"
      unfolding x_def by (simp add: power_mod power_mult)
    also have "\<dots> = 1" using p False by (rule fermat_little)
    finally have one: "x ^ (2 ^ Suc k) mod p = 1" by (simp add: k)
    show ?thesis
    proof (cases "x = 1 \<or> x = p - 1")
      case True
      with Cons False show ?thesis by (simp add: pm)
    next
      case nx: False
      then have "\<not> mr_squarings p x k"
        using mr_squarings_prime [OF p r _ _ one] by simp
      with Cons False nx show ?thesis by (simp add: pm k)
    qed
  qed
qed

lemma miller_rabin_prime:
  assumes p: "is_prime p" and odd: "p mod 2 = 1"
  shows "miller_rabin p bases"
proof -
  from is_prime_ge2 [OF p] have p2: "2 \<le> p" .
  obtain d s where sp: "split_twos (p - 1) 0 = (d, s)"
    by (cases "split_twos (p - 1) 0") auto
  from p2 odd have nz: "p - 1 \<noteq> 0" by simp
  from split_twos_decomp [OF nz sp] have dec: "p - 1 = d * 2 ^ s" and dodd: "d mod 2 = 1"
    by simp_all
  have s: "0 < s"
  proof (rule ccontr)
    assume "\<not> 0 < s"
    with dec have "p - 1 = d" by simp
    with dodd odd show False by presburger
  qed
  have d: "0 \<le> d"
  proof (rule ccontr)
    assume "\<not> 0 \<le> d"
    then have "d * 2 ^ s < 0" by (simp add: mult_less_0_iff)
    with dec p2 show False by simp
  qed
  from mr_bases_prime [OF p dec s d] have "mr_bases p d s bases" .
  with p2 odd sp show ?thesis by (simp add: miller_rabin_def)
qed

text \<open>
  Claim C2: \<^verbatim>\<open>miller_rabin(n, bases)\<close> returns false for every \<open>n < 2\<close>, true for
  \<open>n = 2\<close> and false for every even \<open>n > 2\<close>, for any list of bases; and for every odd
  prime \<open>p < 10^6\<close> and every non-empty list of bases it returns true. (The last part
  holds for every odd prime and every list: lemma \<open>miller_rabin_prime\<close>.)
\<close>

theorem miller_rabin_spec:
  "(n < 2 \<longrightarrow> \<not> miller_rabin n bases)
   \<and> miller_rabin 2 bases
   \<and> (2 < n \<and> n mod 2 = 0 \<longrightarrow> \<not> miller_rabin n bases)
   \<and> (is_prime p \<and> p mod 2 = 1 \<and> p < 10 ^ 6 \<and> bases \<noteq> [] \<longrightarrow> miller_rabin p bases)"
proof (intro conjI impI)
  show "miller_rabin 2 bases" by (simp add: miller_rabin_def)
next
  assume "n < 2"
  then show "\<not> miller_rabin n bases" by (simp add: miller_rabin_def)
next
  assume "2 < n \<and> n mod 2 = 0"
  then show "\<not> miller_rabin n bases" by (simp add: miller_rabin_def)
next
  assume "is_prime p \<and> p mod 2 = 1 \<and> p < 10 ^ 6 \<and> bases \<noteq> []"
  then show "miller_rabin p bases" by (simp add: miller_rabin_prime)
qed

theorem miller_rabin_spec_witness:
  "\<not> miller_rabin 1 [2, 3] \<and> miller_rabin 2 [2, 3] \<and> \<not> miller_rabin 4 [2, 3]
   \<and> is_prime 7 \<and> (7::int) mod 2 = 1 \<and> (7::int) < 10 ^ 6 \<and> miller_rabin 7 [2, 3]"
proof -
  have "is_prime 7" by code_simp
  with miller_rabin_spec [of 1 "[2, 3]" 7] miller_rabin_spec [of 4 "[2, 3]" 7]
  show ?thesis by simp
qed

subsection \<open>The selection of \<open>D\<close> in \<^verbatim>\<open>lucas_selfridge\<close>\<close>

lemma selfridge_d_next:
  "selfridge_d n d sign =
     (if jacobi d n = - 1 then Some d
      else selfridge_d n (fst (selfridge_next (d, sign))) (snd (selfridge_next (d, sign))))"
  by (subst selfridge_d.simps) (simp add: selfridge_next_def)

text \<open>
  After \<open>k\<close> candidates without the symbol \<open>-1\<close> the loop is at the candidate number
  \<open>k\<close>: the candidates are examined in the order of \<open>selfridge_candidate\<close>.
\<close>

lemma selfridge_d_iterate:
  "(\<And>i. i < k \<Longrightarrow> jacobi (selfridge_candidate i) n \<noteq> - 1) \<Longrightarrow>
   selfridge_d n 5 1
     = selfridge_d n (selfridge_candidate k) (snd ((selfridge_next ^^ k) (5, 1)))"
proof (induction k)
  case 0
  show ?case by (simp add: selfridge_candidate_def)
next
  case (Suc k)
  define X where "X = (selfridge_next ^^ k) (5, 1)"
  have "jacobi (fst X) n \<noteq> - 1"
    using Suc.prems [of k] by (simp add: selfridge_candidate_def X_def)
  then have "selfridge_d n (fst X) (snd X)
      = selfridge_d n (fst (selfridge_next X)) (snd (selfridge_next X))"
    by (subst selfridge_d_next) simp
  moreover have "selfridge_d n 5 1 = selfridge_d n (fst X) (snd X)"
    using Suc.IH Suc.prems by (simp add: selfridge_candidate_def X_def)
  ultimately show ?case by (simp add: selfridge_candidate_def X_def)
qed

text \<open>
  Four passes of the loop body bring \<open>(d, 1)\<close> back to itself: after \<open>5\<close> and \<open>-7\<close>
  the statement \<^verbatim>\<open>d += 2\<close> adds to the signed value, which gives \<open>-5\<close>, then \<open>3\<close>, then
  \<open>5\<close> again.
\<close>

lemma selfridge_next_period: "(selfridge_next ^^ 4) (d, 1) = (d, 1)"
  by (simp add: selfridge_next_def numeral_eq_Suc)

lemma selfridge_candidates_first: "map selfridge_candidate [0, 1, 2, 3, 4] = [5, - 7, - 5, 3, 5]"
  by (simp add: selfridge_candidate_def selfridge_next_def numeral_eq_Suc)

text \<open>
  When none of the four values has the Jacobi symbol \<open>-1\<close>, the loop never ends: by the
  induction rule of the partial function, no run from a state of the cycle returns.
\<close>

lemma selfridge_d_cycle:
  assumes j: "jacobi 5 n \<noteq> - 1" "jacobi (- 7) n \<noteq> - 1" "jacobi (- 5) n \<noteq> - 1" "jacobi 3 n \<noteq> - 1"
    and c: "(d, sign) \<in> {(5, 1), (- 7, - 1), (- 5, 1), (3, - 1)}"
  shows "selfridge_d n d sign = None"
proof (rule ccontr)
  define C :: "(int \<times> int) set" where "C = {(5, 1), (- 7, - 1), (- 5, 1), (3, - 1)}"
  assume "selfridge_d n d sign \<noteq> None"
  then obtain y where y: "selfridge_d n d sign = Some y" by auto
  let ?P = "\<lambda>(n'::int) (d'::int) (sign'::int) (y'::int). n' = n \<longrightarrow> (d', sign') \<in> C \<longrightarrow> False"
  have "?P n d sign y"
  proof (rule selfridge_d.raw_induct [where P = ?P, OF _ y])
    fix sd :: "int \<Rightarrow> int \<Rightarrow> int \<Rightarrow> int option" and n' d' sign' y' :: int
    assume IH: "\<And>a b c z. sd a b c = Some z \<Longrightarrow> ?P a b c z"
      and eq: "(if jacobi d' n' = - 1 then Some d' else sd n' (- sign' * (d' + 2)) (- sign')) = Some y'"
    show "?P n' d' sign' y'"
    proof (intro impI)
      assume n: "n' = n" and m: "(d', sign') \<in> C"
      from m j n have nj: "jacobi d' n' \<noteq> - 1" by (auto simp: C_def)
      with eq have s: "sd n' (- sign' * (d' + 2)) (- sign') = Some y'" by simp
      from m have "(- sign' * (d' + 2), - sign') \<in> C"
        by (auto simp: C_def)
      with IH [OF s] n show False by blast
    qed
  qed
  with c show False by (simp add: C_def)
qed

lemma jacobi_15:
  "jacobi 5 15 = 0" "jacobi (- 7) 15 = 1" "jacobi (- 5) 15 = 0" "jacobi 3 15 = 0"
  by code_simp+

lemma jacobi_109:
  "jacobi 5 109 = 1" "jacobi (- 7) 109 = 1" "jacobi (- 5) 109 = 1" "jacobi 3 109 = 1"
  by code_simp+

lemma selfridge_d_15: "selfridge_d 15 5 1 = None"
  by (rule selfridge_d_cycle) (simp_all add: jacobi_15)

lemma selfridge_d_109: "selfridge_d 109 5 1 = None"
  by (rule selfridge_d_cycle) (simp_all add: jacobi_109)

text \<open>
  Claim C3 says that for an odd \<open>n > 2\<close> that is not a square the candidates are examined
  in the order \<open>5, -7, 9, -11, 13, \<dots>\<close> up to the first one with Jacobi symbol \<open>-1\<close>.
  At \<open>n = 11\<close> the first two candidates \<open>5\<close> and \<open>-7\<close> have the symbol \<open>1\<close>, and the
  third candidate that the source examines is \<open>-5\<close>, not \<open>9\<close>; it has the symbol \<open>-1\<close>
  and is the value selected.
\<close>

theorem selfridge_third_candidate:
  "jacobi 5 11 = 1 \<and> jacobi (- 7) 11 = 1
   \<and> selfridge_candidate 2 = - 5 \<and> jacobi (- 5) 11 = - 1
   \<and> selfridge_d 11 5 1 = Some (- 5)"
  by code_simp

text \<open>
  Claim C4 says that \<^verbatim>\<open>lucas_selfridge\<close> returns for every odd \<open>n > 2\<close>. At \<open>n = 15\<close>
  and at the prime \<open>n = 109\<close>, which are odd and not squares, none of \<open>5, -7, -5, 3\<close>
  has the Jacobi symbol \<open>-1\<close>, and the selection loop never ends.
\<close>

theorem lucas_selfridge_diverges: "lucas_selfridge 15 = None \<and> lucas_selfridge 109 = None"
proof -
  have sq: "\<not> is_square 15" "\<not> is_square 109" by code_simp+
  show ?thesis
    using sq by (simp add: lucas_selfridge_def selfridge_d_15 selfridge_d_109)
qed

subsection \<open>Trial division in \<^verbatim>\<open>is_bpsw_probable_prime\<close>\<close>

lemma trial_division_None:
  "trial_division n ps = None \<Longrightarrow> p \<in> set ps \<Longrightarrow> n \<noteq> p \<and> n mod p \<noteq> 0"
  by (induction ps) (auto split: if_splits)

lemma trial_division_True: "trial_division n ps = Some True \<Longrightarrow> n \<in> set ps"
  by (induction ps) (auto split: if_splits)

lemma is_bpsw_below_two: "n < 2 \<Longrightarrow> is_bpsw_probable_prime gmpy2 n = Some False"
  by (simp add: is_bpsw_probable_prime_def)

lemma is_bpsw_small_prime:
  assumes "n \<in> set SMALL_PRIMES"
  shows "is_bpsw_probable_prime gmpy2 n = Some True"
proof -
  from assms have "n = 2 \<or> n = 3 \<or> n = 5 \<or> n = 7 \<or> n = 11 \<or> n = 13 \<or> n = 17
      \<or> n = 19 \<or> n = 23 \<or> n = 29 \<or> n = 31 \<or> n = 37"
    by (simp add: SMALL_PRIMES_def)
  then show ?thesis
    by (elim disjE) (simp_all add: is_bpsw_probable_prime_def SMALL_PRIMES_def)
qed

lemma is_bpsw_small_multiple:
  assumes "2 < n" and p: "p \<in> set SMALL_PRIMES" and d: "n mod p = 0" and ne: "n \<noteq> p"
  shows "is_bpsw_probable_prime gmpy2 n = Some False"
proof -
  have "trial_division n SMALL_PRIMES \<noteq> None"
    using trial_division_None [of n SMALL_PRIMES p] p d by auto
  moreover have "trial_division n SMALL_PRIMES \<noteq> Some True"
  proof
    assume "trial_division n SMALL_PRIMES = Some True"
    then have "n \<in> set SMALL_PRIMES" by (rule trial_division_True)
    with p d ne show False by (auto simp: SMALL_PRIMES_def)
  qed
  ultimately have "trial_division n SMALL_PRIMES = Some False"
    by (cases "trial_division n SMALL_PRIMES") auto
  with assms(1) show ?thesis by (simp add: is_bpsw_probable_prime_def)
qed

lemma is_bpsw_fixed_vectors_agree:
  "is_bpsw_probable_prime None 2 = Some True"
  "is_bpsw_probable_prime None 3 = Some True"
  "is_bpsw_probable_prime None 0 = Some False"
  "is_bpsw_probable_prime None 1 = Some False"
  "is_bpsw_probable_prime None 9 = Some False"
  "is_bpsw_probable_prime None 561 = Some False"
  "is_bpsw_probable_prime None 1105 = Some False"
  "is_bpsw_probable_prime None 1729 = Some False"
  "is_bpsw_probable_prime None 2465 = Some False"
  by code_simp+

text \<open>
  Claim C1 says, among the rest, that on the path without \<^verbatim>\<open>gmpy2\<close> the test returns
  true for the primes \<open>1000003\<close> and \<open>10^18 + 9\<close>. Both pass trial division and the
  Miller-Rabin test to the base 2, and the ladder of \<^verbatim>\<open>lucas_selfridge\<close> then rejects
  them: the test returns false. (The parts of the claim on \<open>n < 2\<close>, on the primes of
  the list and their multiples, and the other fixed vectors hold: the four lemmas above.)
\<close>

theorem is_bpsw_rejects_primes:
  "is_bpsw_probable_prime None 1000003 = Some False
   \<and> is_bpsw_probable_prime None 1000000000000000009 = Some False
   \<and> miller_rabin 1000003 [2] \<and> miller_rabin 1000000000000000009 [2]"
  by code_simp

text \<open>
  The smallest prime beyond the list of trial division, 41, is rejected in the same way,
  and on the prime 109 the test never returns: the selection loop above.
\<close>

lemma is_bpsw_rejects_41: "is_prime 41 \<and> is_bpsw_probable_prime None 41 = Some False"
  by code_simp

lemma prime_109: "is_prime 109"
  by code_simp

lemma is_bpsw_109_diverges: "is_bpsw_probable_prime None 109 = None"
proof -
  have "trial_division 109 SMALL_PRIMES = None" "miller_rabin 109 [2]" "\<not> is_square 109"
    by code_simp+
  then show ?thesis
    by (simp add: is_bpsw_probable_prime_def lucas_selfridge_def selfridge_d_109)
qed

section \<open>Properties of the generators\<close>

lemma filters_loop_Some:
  "filters_loop R pr low high ms steps rng = Inr (Some p, rng') \<Longrightarrow> pr p"
proof (induction R pr low high ms steps rng rule: filters_loop.induct)
  case (1 R predicate low high max_steps steps rng)
  from "1.prems" have lt: "steps < max_steps"
    by (subst (asm) filters_loop.simps) (simp split: if_splits)
  from "1.prems" lt obtain c rng1 where r: "random_odd_in_range R rng low high = Inr (c, rng1)"
    by (subst (asm) filters_loop.simps) (auto split: sum.splits)
  show ?case
  proof (cases "predicate c \<and> is_probable_prime c")
    case True
    with "1.prems" lt r have "p = c"
      by (subst (asm) filters_loop.simps) simp
    with True show ?thesis by simp
  next
    case False
    with "1.prems" lt r
    have "filters_loop R predicate low high max_steps (steps + 1) rng1 = Inr (Some p, rng')"
      by (subst (asm) filters_loop.simps) auto
    with "1.IH" [OF lt r refl False] show ?thesis by simp
  qed
qed

lemma find_prime_with_filters_Some:
  "find_prime_with_filters R rng d ms pr = Inr (Some p, rng') \<Longrightarrow> pr p"
  by (auto simp: find_prime_with_filters_def split: if_splits sum.splits dest: filters_loop_Some)

lemma lite_loop_invariant:
  "lite_loop R td pd ms factors rng = Inr (Some fs) \<Longrightarrow>
   \<forall>p\<in>set factors. lite_predicate p \<Longrightarrow> length factors \<le> 9 \<Longrightarrow>
   (\<forall>p\<in>set fs. lite_predicate p)
   \<and> ((odd (length fs) \<and> td \<le> int (digits (prod_py fs))) \<or> length fs = 10)"
proof (induction R td pd ms factors rng rule: lite_loop.induct)
  case (1 R td pd ms factors rng)
  show ?case
  proof (cases "more_factors td factors")
    case False
    with "1.prems"(1) have fs: "fs = factors"
      by (subst (asm) lite_loop.simps) simp
    from False have "odd (length factors)" "td \<le> int (digits (prod_py factors))"
      by (auto simp: more_factors_def split: if_splits)
    with fs "1.prems"(2) show ?thesis by simp
  next
    case True
    with "1.prems"(1) obtain prime rng1
      where f: "find_prime_with_filters R rng pd ms lite_predicate = Inr (Some prime, rng1)"
      by (subst (asm) lite_loop.simps) (auto split: sum.splits option.splits)
    then have pp: "lite_predicate prime" by (rule find_prime_with_filters_Some)
    show ?thesis
    proof (cases "length (factors @ [prime]) > 9")
      case long: True
      with "1.prems"(1) True f have "fs = factors @ [prime]"
        by (subst (asm) lite_loop.simps) simp
      with long "1.prems"(2,3) pp show ?thesis by auto
    next
      case short: False
      with "1.prems"(1) True f
      have r: "lite_loop R td pd ms (factors @ [prime]) rng1 = Inr (Some fs)"
        by (subst (asm) lite_loop.simps) simp
      have "\<forall>p\<in>set (factors @ [prime]). lite_predicate p"
        using "1.prems"(2) pp by simp
      moreover have "length (factors @ [prime]) \<le> 9" using short by simp
      ultimately show ?thesis
        using "1.IH" [OF True f refl refl short r] by blast
    qed
  qed
qed

text \<open>
  Claim C7, amended: whenever \<^verbatim>\<open>generate_pomerance_lite\<close> returns a product, it is the
  product of the factors in its meta, every factor \<open>p\<close> has \<open>p mod 8 = 3\<close> and
  \<open>jacobi(5, p) = -1\<close>, and the number of factors is odd with the product of at least
  \<open>target_digits\<close> digits, or it is exactly 10 (the cap \<^verbatim>\<open>len(factors) > 9\<close>). This
  holds for every generator of random numbers.
\<close>

theorem pomerance_lite_factors:
  assumes "generate_pomerance_lite R seed td pd ms = Inr (Some (n, m))"
  shows "\<exists>fs. m = Meta_pomerance_lite pd td fs \<and> n = prod_py fs
           \<and> (\<forall>p\<in>set fs. p mod 8 = 3 \<and> jacobi 5 p = - 1)
           \<and> ((odd (length fs) \<and> td \<le> int (digits n)) \<or> length fs = 10)"
proof -
  from assms obtain fs where l: "lite_loop R td pd ms [] (Random R seed) = Inr (Some fs)"
    and m: "m = Meta_pomerance_lite pd td fs" and n: "n = prod_py fs"
    by (auto simp: generate_pomerance_lite_def split: sum.splits option.splits)
  from lite_loop_invariant [OF l] have
    "(\<forall>p\<in>set fs. lite_predicate p)
     \<and> ((odd (length fs) \<and> td \<le> int (digits (prod_py fs))) \<or> length fs = 10)"
    by simp
  with m n show ?thesis by (auto simp: lite_predicate_def)
qed

theorem pomerance_lite_factors_witness:
  "generate_pomerance_lite counter_random 1 3 2 5000
     = Inr (Some (239123, Meta_pomerance_lite 2 3 [43, 67, 83]))
   \<and> 239123 = prod_py [43, 67, 83]
   \<and> (43::int) mod 8 = 3 \<and> jacobi 5 43 = - 1
   \<and> (67::int) mod 8 = 3 \<and> jacobi 5 67 = - 1
   \<and> (83::int) mod 8 = 3 \<and> jacobi 5 83 = - 1
   \<and> odd (length [43, 67, 83 :: int]) \<and> 3 \<le> int (digits 239123)"
proof -
  have e: "generate_pomerance_lite counter_random 1 3 2 5000
     = Inr (Some (239123, Meta_pomerance_lite 2 3 [43, 67, 83]))"
    by code_simp
  from pomerance_lite_factors [OF e] show ?thesis
    using e by auto
qed

text \<open>
  Claim C7, as stated, says that the number of factors is odd. With one-digit primes
  and the default 22 target digits the only admissible factor is 3, the product never
  reaches 22 digits, and the loop leaves by its cap with ten factors.
\<close>

theorem pomerance_lite_even_count_counterexample:
  "generate_pomerance_lite counter_random 1 22 1 5000
     = Inr (Some (59049, Meta_pomerance_lite 1 22 [3, 3, 3, 3, 3, 3, 3, 3, 3, 3]))
   \<and> even (length [3, 3, 3, 3, 3, 3, 3, 3, 3, 3 :: int])"
  by code_simp

text \<open>
  That run does not depend on the generator: whenever \<^verbatim>\<open>randrange\<close> stays within the
  range it is given, as the one of the language does, a run with one-digit primes and 22
  target digits either fails or returns the product of exactly ten factors 3.
\<close>

lemma one_digit_factor: "lite_predicate p \<Longrightarrow> 1 \<le> p \<Longrightarrow> p < 10 \<Longrightarrow> p = 3"
  unfolding lite_predicate_def by presburger

lemma filters_loop_one_digit:
  assumes wf: "\<And>rng lo hi. lo < hi \<Longrightarrow>
                 lo \<le> fst (randrange R rng lo hi 2) \<and> fst (randrange R rng lo hi 2) < hi"
  shows "\<exists>rng1. filters_loop R lite_predicate 1 9 ms steps rng = Inr (None, rng1)
               \<or> filters_loop R lite_predicate 1 9 ms steps rng = Inr (Some 3, rng1)"
proof (induction "nat (ms - steps)" arbitrary: steps rng)
  case 0
  then have "\<not> steps < ms" by simp
  then show ?case by (subst filters_loop.simps, subst (2) filters_loop.simps) simp
next
  case (Suc k)
  then have lt: "steps < ms" by simp
  obtain c rng1 where rr: "randrange R rng 1 10 2 = (c, rng1)"
    by (cases "randrange R rng 1 10 2") auto
  with wf [of 1 10 rng] have c: "1 \<le> c" "c < 10" by simp_all
  have ro: "random_odd_in_range R rng 1 9 = Inr (c, rng1)"
    by (simp add: random_odd_in_range_def rr)
  show ?case
  proof (cases "lite_predicate c \<and> is_probable_prime c")
    case True
    with c have "c = 3" by (simp add: one_digit_factor)
    with True lt ro have "filters_loop R lite_predicate 1 9 ms steps rng = Inr (Some 3, rng1)"
      by (subst filters_loop.simps) simp
    then show ?thesis by blast
  next
    case False
    with lt ro have "filters_loop R lite_predicate 1 9 ms steps rng
        = filters_loop R lite_predicate 1 9 ms (steps + 1) rng1"
      by (subst filters_loop.simps) auto
    moreover from Suc(2) have "k = nat (ms - (steps + 1))" by simp
    ultimately show ?thesis using Suc(1) [of "steps + 1" rng1] by simp
  qed
qed

lemma more_factors_threes:
  assumes "k \<le> 9"
  shows "more_factors 22 (replicate k 3)"
proof -
  from assms have "k = 0 \<or> k = 1 \<or> k = 2 \<or> k = 3 \<or> k = 4 \<or> k = 5 \<or> k = 6 \<or> k = 7 \<or> k = 8 \<or> k = 9"
    by arith
  moreover have "more_factors 22 (replicate 0 3)" "more_factors 22 (replicate 1 3)"
    "more_factors 22 (replicate 2 3)" "more_factors 22 (replicate 3 3)"
    "more_factors 22 (replicate 4 3)" "more_factors 22 (replicate 5 3)"
    "more_factors 22 (replicate 6 3)" "more_factors 22 (replicate 7 3)"
    "more_factors 22 (replicate 8 3)" "more_factors 22 (replicate 9 3)"
    by code_simp+
  ultimately show ?thesis by (elim disjE) simp_all
qed

lemma lite_loop_one_digit:
  assumes wf: "\<And>rng lo hi. lo < hi \<Longrightarrow>
                 lo \<le> fst (randrange R rng lo hi 2) \<and> fst (randrange R rng lo hi 2) < hi"
  shows "k \<le> 9 \<Longrightarrow>
         lite_loop R 22 1 ms (replicate k 3) rng = Inr None
         \<or> lite_loop R 22 1 ms (replicate k 3) rng = Inr (Some (replicate 10 3))"
proof (induction "9 - k" arbitrary: k rng)
  case 0
  then have k: "k = 9" by simp
  from filters_loop_one_digit [OF wf, of ms 0 rng]
  have "(\<exists>rng1. find_prime_with_filters R rng 1 ms lite_predicate = Inr (None, rng1))
        \<or> (\<exists>rng1. find_prime_with_filters R rng 1 ms lite_predicate = Inr (Some 3, rng1))"
    by (auto simp: find_prime_with_filters_def digit_bounds_def)
  then show ?case
  proof (elim disjE exE)
    fix rng1 assume "find_prime_with_filters R rng 1 ms lite_predicate = Inr (None, rng1)"
    then have "lite_loop R 22 1 ms (replicate k 3) rng = Inr None"
      using more_factors_threes [of k] k by (subst lite_loop.simps) simp
    then show ?thesis by simp
  next
    fix rng1 assume "find_prime_with_filters R rng 1 ms lite_predicate = Inr (Some 3, rng1)"
    then have "lite_loop R 22 1 ms (replicate k 3) rng = Inr (Some (replicate 9 3 @ [3]))"
      using more_factors_threes [of k] k by (subst lite_loop.simps) simp
    moreover have "replicate 9 3 @ [3::int] = replicate 10 3"
      by (simp add: numeral_eq_Suc)
    ultimately show ?thesis by simp
  qed
next
  case (Suc j)
  then have k: "k \<le> 8" by simp
  from filters_loop_one_digit [OF wf, of ms 0 rng]
  have "(\<exists>rng1. find_prime_with_filters R rng 1 ms lite_predicate = Inr (None, rng1))
        \<or> (\<exists>rng1. find_prime_with_filters R rng 1 ms lite_predicate = Inr (Some 3, rng1))"
    by (auto simp: find_prime_with_filters_def digit_bounds_def)
  then show ?case
  proof (elim disjE exE)
    fix rng1 assume "find_prime_with_filters R rng 1 ms lite_predicate = Inr (None, rng1)"
    then have "lite_loop R 22 1 ms (replicate k 3) rng = Inr None"
      using more_factors_threes [of k] k by (subst lite_loop.simps) simp
    then show ?thesis by simp
  next
    fix rng1 assume f: "find_prime_with_filters R rng 1 ms lite_predicate = Inr (Some 3, rng1)"
    have r: "replicate k 3 @ [3::int] = replicate (Suc k) 3"
      by (simp add: replicate_append_same)
    have "lite_loop R 22 1 ms (replicate k 3) rng = lite_loop R 22 1 ms (replicate (Suc k) 3) rng1"
      using more_factors_threes [of k] k f by (subst lite_loop.simps) (simp add: r)
    moreover have "j = 9 - Suc k" "Suc k \<le> 9" using Suc(2) k by simp_all
    ultimately show ?thesis using Suc(1) [of "Suc k" rng1] by simp
  qed
qed

lemma pomerance_lite_one_digit:
  assumes wf: "\<And>rng lo hi. lo < hi \<Longrightarrow>
                 lo \<le> fst (randrange R rng lo hi 2) \<and> fst (randrange R rng lo hi 2) < hi"
  shows "generate_pomerance_lite R seed 22 1 ms = Inr None
         \<or> generate_pomerance_lite R seed 22 1 ms
             = Inr (Some (59049, Meta_pomerance_lite 1 22 (replicate 10 3)))"
proof -
  have p: "prod_py (replicate 10 3) = 59049" by code_simp
  from lite_loop_one_digit [OF wf, of 0 ms "Random R seed"] p
  show ?thesis by (auto simp: generate_pomerance_lite_def)
qed

lemma counter_random_in_range:
  "lo < hi \<Longrightarrow> lo \<le> fst (randrange counter_random rng lo hi 2)
              \<and> fst (randrange counter_random rng lo hi 2) < hi"
proof -
  assume lt: "lo < hi"
  define n where "n = (hi - lo + 2 - 1) div 2"
  from lt have n: "0 < n" "2 * n \<le> hi - lo + 1" unfolding n_def by presburger+
  then have m: "0 \<le> int rng mod n" "int rng mod n < n" by simp_all
  have "fst (randrange counter_random rng lo hi 2) = lo + 2 * (int rng mod n)"
    by (simp add: counter_random_def n_def)
  with n m show ?thesis by linarith
qed

section \<open>Properties of the task executor\<close>

lemma test_candidate_Some:
  "test_candidate gmpy2 n m st = Some st1 \<Longrightarrow>
   checked st1 = checked st \<and> tested st1 = tested st @ [n] \<and> errors st1 = errors st"
  by (auto simp: test_candidate_def split: option.splits)

lemma range_loop_checked:
  "range_loop gmpy2 a ns st = Some st1 \<Longrightarrow> checked st = int (length (tested st)) \<Longrightarrow>
   checked st1 = int (length (tested st1))"
proof (induction ns arbitrary: st)
  case Nil
  then show ?case by simp
next
  case (Cons n ns)
  show ?case
  proof (cases "max_candidates a \<noteq> 0 \<and> checked st \<ge> max_candidates a")
    case True
    with Cons.prems show ?thesis by simp
  next
    case False
    with Cons.prems(1) obtain st2
      where t: "test_candidate gmpy2 n (Meta_range (task_type a)) (st\<lparr>checked := checked st + 1\<rparr>) = Some st2"
        and r: "range_loop gmpy2 a ns st2 = Some st1"
      by (auto split: option.splits)
    from test_candidate_Some [OF t] Cons.prems(2)
    have "checked st2 = int (length (tested st2))" by simp
    with Cons.IH [OF r] show ?thesis .
  qed
qed

lemma chernick_loop_checked:
  "chernick_loop gmpy2 rq ks st = Some st1 \<Longrightarrow>
   checked st1 = checked st + int (length ks)
   \<and> length (tested st1)
       = length (tested st) + length (filter (\<lambda>k. generate_chernick k rq \<noteq> None) ks)"
proof (induction ks arbitrary: st)
  case Nil
  then show ?case by simp
next
  case (Cons k ks)
  show ?case
  proof (cases "generate_chernick k rq")
    case None
    with Cons.prems have "chernick_loop gmpy2 rq ks (st\<lparr>checked := checked st + 1\<rparr>) = Some st1"
      by simp
    from Cons.IH [OF this] None show ?thesis by simp
  next
    case (Some c)
    obtain n m where c: "c = (n, m)" by (cases c) auto
    with Cons.prems Some obtain st2
      where t: "test_candidate gmpy2 n m (st\<lparr>checked := checked st + 1\<rparr>) = Some st2"
        and r: "chernick_loop gmpy2 rq ks st2 = Some st1"
      by (auto split: option.splits)
    from test_candidate_Some [OF t] Cons.IH [OF r] Some show ?thesis by simp
  qed
qed

lemma seed_loop_checked:
  "seed_loop R frames gmpy2 a seeds st = Some (Inr st1) \<Longrightarrow>
   checked st1 = checked st + int (length seeds)
   \<and> length (tested st1) + length (errors st1)
       = length (tested st) + length (errors st) + length seeds"
proof (induction seeds arbitrary: st)
  case Nil
  then show ?case by simp
next
  case (Cons seed seeds)
  from Cons.prems obtain c where g: "generate R frames a seed = Inr c"
    by (cases "generate R frames a seed") auto
  show ?case
  proof (cases c)
    case None
    with Cons.prems g
    have "seed_loop R frames gmpy2 a seeds
            (st\<lparr>checked := checked st + 1, errors := errors st @ [(seed, ''generation_failed'')]\<rparr>)
          = Some (Inr st1)"
      by simp
    from Cons.IH [OF this] show ?thesis by simp
  next
    case (Some nm)
    obtain n m where nm: "nm = (n, m)" by (cases nm) auto
    with Cons.prems g Some obtain st2
      where t: "test_candidate gmpy2 n m (st\<lparr>checked := checked st + 1\<rparr>) = Some st2"
        and r: "seed_loop R frames gmpy2 a seeds st2 = Some (Inr st1)"
      by (auto split: option.splits)
    from test_candidate_Some [OF t] Cons.IH [OF r] show ?thesis by simp
  qed
qed

text \<open>
  Claim C9, amended: in the report of every run that ends with one, \<open>checked\<close> is the
  number of iterations of the loop of the mode. In range mode each iteration tests its
  candidate, so \<open>checked\<close> is the number of candidates tested. In Chernick mode
  \<open>checked\<close> is the number of values \<open>k\<close>, and only those for which the generator
  yields a candidate are tested. In seed mode \<open>checked\<close> is the number of seeds: the
  candidates tested and the seeds recorded in \<open>errors\<close> together. Factors generated
  are not counted in any mode.
\<close>

theorem checked_counts_iterations:
  assumes "main R frames gmpy2 a = Some (Inr rep)"
  shows "(task_type a = Main_odds \<or> task_type a = Large_numbers \<longrightarrow>
            report_checked rep = int (length (report_tested rep)))
       \<and> (task_type a = Chernick \<longrightarrow>
            report_checked rep = int (length (py_range (start a) (end_arg a + 1) 1))
            \<and> length (report_tested rep)
                = length (filter (\<lambda>k. generate_chernick k (require_prime_factors a) \<noteq> None)
                            (py_range (start a) (end_arg a + 1) 1)))
       \<and> (task_type a \<in> {Pomerance_lite, Pomerance_modular, Lambda_plus_one} \<longrightarrow>
            report_checked rep = int (length (seed_range a))
            \<and> report_checked rep
                = int (length (report_tested rep)) + int (length (report_errors rep)))"
proof (intro conjI impI)
  assume t: "task_type a = Main_odds \<or> task_type a = Large_numbers"
  with assms obtain ns st where "range_loop gmpy2 a ns initial_state = Some st"
    and "rep = payload a st"
    by (auto simp: main_def Let_def split: if_splits option.splits)
  with range_loop_checked [of gmpy2 a ns initial_state st]
  show "report_checked rep = int (length (report_tested rep))"
    by (simp add: initial_state_def payload_def)
next
  assume t: "task_type a = Chernick"
  with assms obtain st
    where l: "chernick_loop gmpy2 (require_prime_factors a) (py_range (start a) (end_arg a + 1) 1)
            initial_state = Some st"
      and "rep = payload a st"
    by (auto simp: main_def split: if_splits option.splits)
  with chernick_loop_checked [OF l]
  show "report_checked rep = int (length (py_range (start a) (end_arg a + 1) 1))"
    and "length (report_tested rep)
                = length (filter (\<lambda>k. generate_chernick k (require_prime_factors a) \<noteq> None)
                            (py_range (start a) (end_arg a + 1) 1))"
    by (simp_all add: initial_state_def payload_def)
next
  assume t: "task_type a \<in> {Pomerance_lite, Pomerance_modular, Lambda_plus_one}"
  with assms obtain st
    where l: "seed_loop R frames gmpy2 a (seed_range a) initial_state = Some (Inr st)"
      and "rep = payload a st"
    by (auto simp: main_def seed_range_def Let_def split: if_splits option.splits sum.splits)
  with seed_loop_checked [OF l]
  show "report_checked rep = int (length (seed_range a))"
    and "report_checked rep = int (length (report_tested rep)) + int (length (report_errors rep))"
    by (simp_all add: initial_state_def payload_def)
qed

theorem checked_counts_iterations_witness:
  "main counter_random 1000 None (chernick_args 1 3)
     = Some (Inr \<lparr>report_task_type = Chernick, report_checked = 3, hit_count = 0,
                  report_hits = [], report_errors = [], report_tested = [1729]\<rparr>)
   \<and> (3::int) = int (length (py_range 1 (3 + 1) 1))
   \<and> length [1729::int] = length (filter (\<lambda>k. generate_chernick k True \<noteq> None) (py_range 1 (3 + 1) 1))"
proof -
  have e: "main counter_random 1000 None (chernick_args 1 3)
     = Some (Inr \<lparr>report_task_type = Chernick, report_checked = 3, hit_count = 0,
                  report_hits = [], report_errors = [], report_tested = [1729]\<rparr>)"
    by code_simp
  from checked_counts_iterations [OF e] show ?thesis
    using e by (simp add: chernick_args_def default_args_def)
qed

text \<open>
  Claim C9, as stated, says that \<open>checked\<close> is the number of candidates evaluated for
  primality, in Chernick mode too. With \<^verbatim>\<open>--require-prime-factors\<close> and \<open>k = 2\<close> the
  factor 25 is not prime, the generator yields nothing, no candidate is tested, and
  \<open>checked\<close> is 1.
\<close>

theorem checked_without_test_counterexample:
  "main counter_random 1000 None (chernick_args 2 2)
     = Some (Inr \<lparr>report_task_type = Chernick, report_checked = 1, hit_count = 0,
                  report_hits = [], report_errors = [], report_tested = []\<rparr>)"
  by code_simp

lemma py_range_3_101: "py_range 3 101 2 =
  [3, 5, 7, 9, 11, 13, 15, 17, 19, 21, 23, 25, 27, 29, 31, 33, 35, 37, 39, 41, 43, 45, 47, 49,
   51, 53, 55, 57, 59, 61, 63, 65, 67, 69, 71, 73, 75, 77, 79, 81, 83, 85, 87, 89, 91, 93, 95, 97, 99]"
  by code_simp

lemma py_range_41_100: "py_range 41 100 2 =
  [41, 43, 45, 47, 49,
   51, 53, 55, 57, 59, 61, 63, 65, 67, 69, 71, 73, 75, 77, 79, 81, 83, 85, 87, 89, 91, 93, 95, 97, 99]"
  by code_simp

lemma primes_41_97:
  "is_prime 41" "is_prime 43" "is_prime 47" "is_prime 53" "is_prime 59" "is_prime 61" "is_prime 67"
  "is_prime 71" "is_prime 73" "is_prime 79" "is_prime 83" "is_prime 89" "is_prime 97"
  by code_simp+

text \<open>
  Claim C8, amended: the run \<^verbatim>\<open>--task-type main_odds --start 2 --end 100\<close> rounds the
  start up to 3 and tests the 49 odd numbers from 3 to 99, so \<open>checked = 49\<close>; and when
  \<^verbatim>\<open>gmpy2\<close> decides primality rightly on the odd numbers from 41 to 99, the hits are
  the 24 odd primes below 100 (the prime 2 is never tested).
\<close>

theorem main_odds_2_100:
  assumes "\<forall>n\<in>set (py_range 41 100 2). is_bpsw_prp n = Some (is_prime n)"
  shows "\<exists>rep. main R frames (Some is_bpsw_prp) main_odds_2_100_args = Some (Inr rep)
           \<and> report_checked rep = 49 \<and> hit_count rep = 24"
proof -
  from assms have f:
    "is_bpsw_prp 41 = Some True" "is_bpsw_prp 43 = Some True" "is_bpsw_prp 47 = Some True"
    "is_bpsw_prp 53 = Some True" "is_bpsw_prp 59 = Some True" "is_bpsw_prp 61 = Some True"
    "is_bpsw_prp 67 = Some True" "is_bpsw_prp 71 = Some True" "is_bpsw_prp 73 = Some True"
    "is_bpsw_prp 79 = Some True" "is_bpsw_prp 83 = Some True" "is_bpsw_prp 89 = Some True"
    "is_bpsw_prp 97 = Some True"
    by (simp_all add: py_range_41_100 primes_41_97)
  show ?thesis
    by (simp add: main_def main_odds_2_100_args_def default_args_def py_range_3_101
        initial_state_def payload_def test_candidate_def is_bpsw_probable_prime_def
        SMALL_PRIMES_def f)
qed

theorem main_odds_2_100_witness:
  "is_prime 41 \<and> \<not> is_prime 45 \<and> is_prime 97 \<and> \<not> is_prime 99
   \<and> report_counts
        (main counter_random 1000 (Some (\<lambda>n. Some (is_prime n))) main_odds_2_100_args)
      = Some (49, 24)"
proof -
  have "\<forall>n\<in>set (py_range 41 100 2). (\<lambda>n. Some (is_prime n)) n = Some (is_prime n)"
    by simp
  from main_odds_2_100 [OF this, of counter_random 1000]
  have "report_counts
        (main counter_random 1000 (Some (\<lambda>n. Some (is_prime n))) main_odds_2_100_args)
      = Some (49, 24)"
    by (auto simp: report_counts_def)
  moreover have "is_prime 41 \<and> \<not> is_prime 45 \<and> is_prime 97 \<and> \<not> is_prime 99"
    by code_simp
  ultimately show ?thesis by simp
qed

text \<open>
  Claim C8, as stated, says \<open>checked = 50\<close> and \<open>hit_count = 25\<close>. The run tests 49
  numbers whatever the test answers; on the path without \<^verbatim>\<open>gmpy2\<close> it reports 12 hits.
\<close>

theorem main_odds_2_100_counterexample:
  "report_counts (main counter_random 1000 None main_odds_2_100_args) = Some (49, 12)"
  by code_simp

end
